theory Spec2Isabelle
  imports Main "HOL-Library.Word" "HOL-Library.AList"
begin

section \<open>Data model\<close>

text \<open>
  \<^verbatim>\<open>using Entity = int;\<close> An entity is a 32-bit signed integer. It is a 32-bit word
  here, read as two's complement by \<open>sint\<close>; \<open>+\<close> and \<open>-\<close> wrap around.
\<close>

type_synonym Entity = "32 word"

text \<open>
  The component structs of Component.h. A \<^verbatim>\<open>float\<close> field is carried as its 32-bit
  pattern; no floating-point arithmetic is modelled, and so neither is
  \<^verbatim>\<open>MovementSystem\<close>. The field \<^verbatim>\<open>Name::value\<close> is \<open>val\<close> here.
\<close>

type_synonym float = "32 word"

record Position =
  x :: float
  y :: float

record Velocity =
  dx :: float
  dy :: float

record Health =
  hp :: "32 word"

record Name =
  val :: string

text \<open>
  The templates of EntityManager.h are instantiated at these four structs. A component
  value of any of them is a \<open>component\<close>; \<open>type_index\<close> is \<^verbatim>\<open>std::type_index(typeid(T))\<close>.
\<close>

datatype component =
  CPosition Position | CVelocity Velocity | CHealth Health | CName Name

datatype type_index = TPosition | TVelocity | THealth | TName

fun typeid :: "component \<Rightarrow> type_index" where
  "typeid (CPosition _) = TPosition"
| "typeid (CVelocity _) = TVelocity"
| "typeid (CHealth _) = THealth"
| "typeid (CName _) = TName"

text \<open>
  The argument pack \<^verbatim>\<open>Args&&... args\<close> of \<^verbatim>\<open>addComponent\<close> and \<^verbatim>\<open>emplace\<close>, by the
  component that \<^verbatim>\<open>C{ std::forward<Args>(args)... }\<close> builds from it. \<open>ByCopy c\<close>: the pack
  holds lvalues, literals or values of arithmetic type (\<^verbatim>\<open>addComponent<Health>(e, 90)\<close>), and
  building from it leaves it as it is. \<open>ByMove c\<close>: the pack holds an rvalue of class type
  (\<^verbatim>\<open>addComponent<Name>(e, Name{ "recycled" })\<close>), and building from it moves from that
  rvalue. A moved-from \<^verbatim>\<open>std::string\<close> is valid but unspecified by the standard and empty in
  libstdc++, libc++ and the MSVC library: it is empty here. Moving a \<^verbatim>\<open>Position\<close>,
  \<^verbatim>\<open>Velocity\<close> or \<^verbatim>\<open>Health\<close> copies it.
\<close>

datatype args = ByCopy component | ByMove component

fun moved_from :: "component \<Rightarrow> component" where
  "moved_from (CName n) = CName (n\<lparr>val := []\<rparr>)"
| "moved_from c = c"

text \<open>\<^verbatim>\<open>C{ std::forward<Args>(args)... }\<close>: the component built, and the pack afterwards.\<close>

fun construct :: "args \<Rightarrow> component \<times> args" where
  "construct (ByCopy c) = (c, ByCopy c)"
| "construct (ByMove c) = (c, ByMove (moved_from c))"

text \<open>The template argument \<open>T\<close> of \<^verbatim>\<open>addComponent<T>\<close>: the type the pack builds.\<close>

definition type_arg :: "args \<Rightarrow> type_index" where
  "type_arg a = typeid (fst (construct a))"

text \<open>
  \<^verbatim>\<open>ComponentStorage<C>\<close>: the unordered map \<open>data\<close> is an association list, whose order
  is the order in which the map's iterators traverse it. \<open>elem_type\<close> is the template
  argument \<open>C\<close> the object was constructed with (its dynamic type).
\<close>

record ComponentStorage =
  elem_type :: type_index
  data :: "(Entity \<times> component) list"

text \<open>
  \<^verbatim>\<open>EntityManager\<close>: \<open>nextId\<close>, the vectors \<open>entities\<close> and \<open>freeIds\<close> (back of the vector
  = end of the list), and the registry \<open>components\<close> from type identity to storage.
\<close>

record EntityManager =
  nextId :: "32 word"
  entities :: "Entity list"
  freeIds :: "Entity list"
  components :: "(type_index \<times> ComponentStorage) list"

section \<open>ComponentStorage\<close>

definition new_storage :: "type_index \<Rightarrow> ComponentStorage" where
  "new_storage ti = \<lparr>elem_type = ti, data = []\<rparr>"

text \<open>
  \<^verbatim>\<open>emplace\<close>: the temporary \<^verbatim>\<open>C{ std::forward<Args>(args)... }\<close> is built first, from the
  pack; \<^verbatim>\<open>data.emplace(e, ...)\<close> inserts it when the key is absent (a new node, at the end
  of the list here). When the key is present the found node is assigned a second
  \<^verbatim>\<open>C{ std::forward<Args>(args)... }\<close>, built from the pack as the first construction left
  it. The reference returned is the node of \<open>e\<close>; the model returns the storage.
\<close>

definition emplace :: "Entity \<Rightarrow> args \<Rightarrow> ComponentStorage \<Rightarrow> ComponentStorage" where
  "emplace e a st =
     (let (c, a') = construct a;
          inserted = (map_of (data st) e = None)
      in if inserted then st\<lparr>data := data st @ [(e, c)]\<rparr>
         else st\<lparr>data := AList.update e (fst (construct a')) (data st)\<rparr>)"

definition remove :: "Entity \<Rightarrow> ComponentStorage \<Rightarrow> ComponentStorage" where
  "remove e st = st\<lparr>data := AList.delete e (data st)\<rparr>"

definition has :: "Entity \<Rightarrow> ComponentStorage \<Rightarrow> bool" where
  "has e st = (map_of (data st) e \<noteq> None)"

text \<open>\<^verbatim>\<open>get\<close> returns a pointer to the stored value, or \<^verbatim>\<open>nullptr\<close>: \<open>None\<close>.\<close>

definition get :: "Entity \<Rightarrow> ComponentStorage \<Rightarrow> component option" where
  "get e st = map_of (data st) e"

definition all :: "ComponentStorage \<Rightarrow> (Entity \<times> component) list" where
  "all st = data st"

section \<open>EntityManager\<close>

text \<open>The constructor \<^verbatim>\<open>EntityManager() : nextId(0) {}\<close>.\<close>

definition init :: EntityManager where
  "init = \<lparr>nextId = 0, entities = [], freeIds = [], components = []\<rparr>"

definition createEntity :: "EntityManager \<Rightarrow> Entity \<times> EntityManager" where
  "createEntity s =
     (if freeIds s \<noteq> [] then
        (let i = last (freeIds s)
         in (i, s\<lparr>freeIds := butlast (freeIds s), entities := entities s @ [i]\<rparr>))
      else
        (let i = nextId s
         in (i, s\<lparr>nextId := nextId s + 1, entities := entities s @ [i]\<rparr>)))"

definition destroyEntity :: "Entity \<Rightarrow> EntityManager \<Rightarrow> EntityManager" where
  "destroyEntity i s =
     s\<lparr>entities := removeAll i (entities s),
       freeIds := freeIds s @ [i],
       components := map (\<lambda>kv. (fst kv, remove i (snd kv))) (components s)\<rparr>"

text \<open>
  \<^verbatim>\<open>addComponent<T>(e, args...)\<close> forwards the pack to \<^verbatim>\<open>emplace\<close>. The \<^verbatim>\<open>static_cast\<close> to
  \<^verbatim>\<open>ComponentStorage<T>*\<close> is not checked by the code and is the identity here. The
  reference returned is the node of \<open>e\<close> in the storage of \<open>T\<close>; the model returns the
  manager.
\<close>

definition addComponent :: "Entity \<Rightarrow> args \<Rightarrow> EntityManager \<Rightarrow> EntityManager" where
  "addComponent e a s =
     (let ti = type_arg a in
      case map_of (components s) ti of
        None \<Rightarrow>
          (let store = new_storage ti;
               s1 = s\<lparr>components := components s @ [(ti, store)]\<rparr>
           in s1\<lparr>components := AList.update ti (emplace e a store) (components s1)\<rparr>)
      | Some ptr \<Rightarrow>
          s\<lparr>components := AList.update ti (emplace e a ptr) (components s)\<rparr>)"

definition removeComponent :: "type_index \<Rightarrow> Entity \<Rightarrow> EntityManager \<Rightarrow> EntityManager" where
  "removeComponent ti e s =
     (case map_of (components s) ti of
        None \<Rightarrow> s
      | Some ptr \<Rightarrow> s\<lparr>components := AList.update ti (remove e ptr) (components s)\<rparr>)"

definition hasComponent :: "type_index \<Rightarrow> Entity \<Rightarrow> EntityManager \<Rightarrow> bool" where
  "hasComponent ti e s =
     (case map_of (components s) ti of None \<Rightarrow> False | Some ptr \<Rightarrow> has e ptr)"

definition getComponent :: "type_index \<Rightarrow> Entity \<Rightarrow> EntityManager \<Rightarrow> component option" where
  "getComponent ti e s =
     (case map_of (components s) ti of None \<Rightarrow> None | Some ptr \<Rightarrow> get e ptr)"

section \<open>forEach\<close>

text \<open>
  \<^verbatim>\<open>for (auto& kv : ptr->all()) func(kv.first, kv.second);\<close> is the iterator loop
  \<^verbatim>\<open>for (it = begin(); it != end(); ++it)\<close>. An iterator of the map is the key of the node
  it points to, \<open>None\<close> for \<^verbatim>\<open>end()\<close>. \<^verbatim>\<open>erase\<close> invalidates the iterators to the erased
  node, and incrementing an invalidated iterator is undefined: that outcome is the value
  \<open>Inl InvalidatedIterator\<close>. A key that is erased and emplaced again within one call of
  the visitor is taken as still valid, and an insertion by the visitor is taken not to
  rehash the map. The storage is found once, before the loop; no call removes a storage from
  the registry, so looking it up at each step finds the same one. The loop runs as long as
  the visitor keeps adding nodes behind the iterator: not returning is the value \<open>None\<close>.
  The \<^verbatim>\<open>const\<close> overload of \<^verbatim>\<open>forEach\<close> is the same loop.
\<close>

datatype fault = InvalidatedIterator

text \<open>
  The visitor is \<^verbatim>\<open>func(Entity, T&)\<close> with its captures: it gets the key and the value
  read at the call, and transforms the manager together with whatever else it captured
  (\<open>'u\<close>). It writes to its \<^verbatim>\<open>T&\<close> argument with \<open>assign\<close>.
\<close>

type_synonym 'u visitor =
  "Entity \<Rightarrow> component \<Rightarrow> EntityManager \<times> 'u \<Rightarrow> EntityManager \<times> 'u"

definition storage_all :: "type_index \<Rightarrow> EntityManager \<Rightarrow> (Entity \<times> component) list" where
  "storage_all ti s = (case map_of (components s) ti of None \<Rightarrow> [] | Some ptr \<Rightarrow> all ptr)"

definition begin_it :: "(Entity \<times> component) list \<Rightarrow> Entity option" where
  "begin_it kvs = (case kvs of [] \<Rightarrow> None | kv # _ \<Rightarrow> Some (fst kv))"

fun advance :: "Entity \<Rightarrow> (Entity \<times> component) list \<Rightarrow> Entity option" where
  "advance e [] = None"
| "advance e (kv # kvs) = (if fst kv = e then begin_it kvs else advance e kvs)"

partial_function (option) forEach_loop ::
  "type_index \<Rightarrow> 'u visitor \<Rightarrow> Entity option \<Rightarrow> EntityManager \<times> 'u
     \<Rightarrow> (fault + EntityManager \<times> 'u) option" where
  "forEach_loop ti func it s =
     (case it of
        None \<Rightarrow> Some (Inr s)
      | Some e \<Rightarrow>
          (case map_of (storage_all ti (fst s)) e of
             None \<Rightarrow> Some (Inl InvalidatedIterator)
           | Some c \<Rightarrow>
               (let s' = func e c s in
                if map_of (storage_all ti (fst s')) e = None
                then Some (Inl InvalidatedIterator)
                else forEach_loop ti func (advance e (storage_all ti (fst s'))) s')))"

declare forEach_loop.simps [code]

definition forEach ::
  "type_index \<Rightarrow> 'u visitor \<Rightarrow> EntityManager \<times> 'u \<Rightarrow> (fault + EntityManager \<times> 'u) option" where
  "forEach ti func s =
     (case map_of (components (fst s)) ti of
        None \<Rightarrow> Some (Inr s)
      | Some ptr \<Rightarrow> forEach_loop ti func (begin_it (all ptr)) s)"

text \<open>
  Assignment through the \<^verbatim>\<open>T&\<close> the visitor was given: the value of the node of \<open>e\<close> in
  the storage of \<open>ti\<close> is replaced in place.
\<close>

definition assign :: "type_index \<Rightarrow> Entity \<Rightarrow> component \<Rightarrow> EntityManager \<Rightarrow> EntityManager" where
  "assign ti e c s =
     (case map_of (components s) ti of
        None \<Rightarrow> s
      | Some ptr \<Rightarrow>
          s\<lparr>components :=
              AList.update ti (ptr\<lparr>data := AList.map_entry e (\<lambda>_. c) (data ptr)\<rparr>)
                (components s)\<rparr>)"

section \<open>HealthSystem\<close>

text \<open>\<^verbatim>\<open>std::max(0, v)\<close> on \<^verbatim>\<open>int\<close>: \<^verbatim>\<open>(0 < v) ? v : 0\<close>, compared as signed.\<close>

definition max0 :: "32 word \<Rightarrow> 32 word" where
  "max0 v = (if 0 <s v then v else 0)"

text \<open>The line written to \<^verbatim>\<open>std::cout\<close> when an entity is destroyed.\<close>

datatype cout_line = Destroying Entity

definition health_visit :: "cout_line list visitor" where
  "health_visit e c s =
     (case c of
        CHealth h \<Rightarrow>
          (let h' = h\<lparr>hp := max0 (hp h - 1)\<rparr>;
               m = assign THealth e (CHealth h') (fst s)
           in if hp h' = 0
              then (destroyEntity e m, snd s @ [Destroying e])
              else (m, snd s))
      | _ \<Rightarrow> s)"

definition HealthSystem_update ::
  "EntityManager \<times> cout_line list \<Rightarrow> (fault + EntityManager \<times> cout_line list) option" where
  "HealthSystem_update s = forEach THealth health_visit s"

section \<open>Sequences of calls\<close>

datatype call =
  Create | Destroy Entity | Add Entity args | Remove type_index Entity

fun run :: "call list \<Rightarrow> EntityManager \<Rightarrow> EntityManager" where
  "run [] s = s"
| "run (Create # cs) s = run cs (snd (createEntity s))"
| "run (Destroy i # cs) s = run cs (destroyEntity i s)"
| "run (Add e a # cs) s = run cs (addComponent e a s)"
| "run (Remove ti e # cs) s = run cs (removeComponent ti e s)"

text \<open>A sequence in which \<^verbatim>\<open>destroyEntity\<close> is only called on an entity that is live.\<close>

fun live_only :: "call list \<Rightarrow> EntityManager \<Rightarrow> bool" where
  "live_only [] s = True"
| "live_only (Create # cs) s = live_only cs (snd (createEntity s))"
| "live_only (Destroy i # cs) s = (i \<in> set (entities s) \<and> live_only cs (destroyEntity i s))"
| "live_only (Add e a # cs) s = live_only cs (addComponent e a s)"
| "live_only (Remove ti e # cs) s = live_only cs (removeComponent ti e s)"

text \<open>
  A visitor that only records what it is shown:
  \<^verbatim>\<open>[&](Entity e, T& c) { seen.push_back({e, c}); }\<close>.
\<close>

definition observe :: "(Entity \<times> component) list visitor" where
  "observe e c s = (fst s, snd s @ [(e, c)])"

section \<open>Invariants\<close>

text \<open>Every storage holds at most one node per key.\<close>

definition keys_distinct :: "EntityManager \<Rightarrow> bool" where
  "keys_distinct s = (\<forall>kv \<in> set (components s). distinct (map fst (data (snd kv))))"

text \<open>
  The registry holds one storage per type identity, each constructed for the type it is
  registered under and holding values of that type only.
\<close>

definition registry_ok :: "EntityManager \<Rightarrow> bool" where
  "registry_ok s =
     (distinct (map fst (components s)) \<and>
      (\<forall>kv \<in> set (components s).
         elem_type (snd kv) = fst kv \<and>
         (\<forall>ec \<in> set (data (snd kv)). typeid (snd ec) = fst kv)))"

text \<open>
  The identifiers handed out so far: none is both live and free or twice in either
  vector, and all lie below the counter.
\<close>

definition alloc_inv :: "EntityManager \<Rightarrow> bool" where
  "alloc_inv s =
     (distinct (entities s @ freeIds s) \<and> 0 \<le> sint (nextId s) \<and>
      (\<forall>i \<in> set (entities s @ freeIds s). 0 \<le> sint i \<and> sint i < sint (nextId s)))"

text \<open>
  The storage \<^verbatim>\<open>addComponent<T>\<close> emplaces into: the registered one, or a new empty one.
\<close>

definition store_for :: "type_index \<Rightarrow> EntityManager \<Rightarrow> ComponentStorage" where
  "store_for ti s = (case map_of (components s) ti of None \<Rightarrow> new_storage ti | Some ptr \<Rightarrow> ptr)"

text \<open>The component \<^verbatim>\<open>emplace\<close> leaves in the node of \<open>e\<close>.\<close>

definition emplaced :: "Entity \<Rightarrow> args \<Rightarrow> ComponentStorage \<Rightarrow> component" where
  "emplaced e a st =
     (if map_of (data st) e = None then fst (construct a)
      else fst (construct (snd (construct a))))"

text \<open>
  The packs of \<^verbatim>\<open>addComponent<Health>(e, n)\<close> and of \<^verbatim>\<open>addComponent<Name>(e, Name{ v })\<close>, the
  two shapes \<^verbatim>\<open>main\<close> uses.
\<close>

abbreviation health :: "32 word \<Rightarrow> args" where
  "health n \<equiv> ByCopy (CHealth \<lparr>hp = n\<rparr>)"

abbreviation rvalue_name :: "string \<Rightarrow> args" where
  "rvalue_name v \<equiv> ByMove (CName \<lparr>val = v\<rparr>)"

text \<open>The entities a sequence of calls passes to \<^verbatim>\<open>addComponent\<close>.\<close>

fun added_ids :: "call list \<Rightarrow> Entity list" where
  "added_ids [] = []"
| "added_ids (Add e a # cs) = e # added_ids cs"
| "added_ids (_ # cs) = added_ids cs"

section \<open>Argument packs\<close>

lemma update_absent: "k \<notin> fst ` set al \<Longrightarrow> AList.update k v al = al @ [(k, v)]"
  by (induction al) auto

lemma emplace_eq:
  "emplace e a st = st\<lparr>data := AList.update e (emplaced e a st) (data st)\<rparr>"
proof (cases "map_of (data st) e = None")
  case True
  then have "e \<notin> fst ` set (data st)"
    by (simp add: map_of_eq_None_iff)
  then show ?thesis
    using True by (simp add: emplace_def emplaced_def update_absent split: prod.split)
next
  case False
  then obtain c0 where "map_of (data st) e = Some c0"
    by auto
  then show ?thesis
    by (simp add: emplace_def emplaced_def split: prod.split)
qed

lemma typeid_moved_from: "typeid (moved_from c) = typeid c"
  by (cases c) simp_all

lemma typeid_emplaced: "typeid (emplaced e a st) = type_arg a"
  by (cases a) (simp_all add: emplaced_def type_arg_def typeid_moved_from)

lemma emplaced_absent: "map_of (data st) e = None \<Longrightarrow> emplaced e a st = fst (construct a)"
  by (simp add: emplaced_def)

lemma emplaced_copy: "emplaced e (ByCopy c) st = c"
  by (simp add: emplaced_def)

section \<open>Identifier allocation\<close>

lemma sint_succ:
  assumes "sint (w :: 32 word) < 2147483647"
  shows "sint (w + 1) = sint w + 1"
proof -
  have lo: "- (2 ^ 31) \<le> sint w"
    using sint_ge [of w] by simp
  have "sint (w + 1) = signed_take_bit 31 (sint w + 1)"
    by (simp add: sint_word_ariths)
  also have "\<dots> = sint w + 1"
    by (rule signed_take_bit_int_eq_self) (use lo assms in simp_all)
  finally show ?thesis .
qed


lemma createEntity_fresh_branch:
  "freeIds s = [] \<Longrightarrow>
     createEntity s = (nextId s, s\<lparr>nextId := nextId s + 1, entities := entities s @ [nextId s]\<rparr>)"
  by (simp add: createEntity_def Let_def)

lemma createEntity_recycle_branch:
  "freeIds s = fs @ [f] \<Longrightarrow>
     createEntity s = (f, s\<lparr>freeIds := fs, entities := entities s @ [f]\<rparr>)"
  by (simp add: createEntity_def Let_def)

lemma createEntity_alloc_inv:
  assumes "alloc_inv s" and "sint (nextId s) < 2147483647"
  shows "alloc_inv (snd (createEntity s))"
proof (cases "freeIds s" rule: rev_cases)
  case Nil
  have nx: "sint (nextId s + 1) = sint (nextId s) + 1"
    using assms(2) by (rule sint_succ)
  have d: "distinct (entities s)" and b: "\<forall>i \<in> set (entities s). 0 \<le> sint i \<and> sint i < sint (nextId s)"
    and z: "0 \<le> sint (nextId s)"
    using assms(1) Nil by (simp_all add: alloc_inv_def)
  have "nextId s \<notin> set (entities s)"
    using b by fastforce
  then show ?thesis
    using d b z nx by (simp add: createEntity_fresh_branch [OF Nil] alloc_inv_def Nil) fastforce
next
  case (snoc fs f)
  have "distinct (entities s @ fs @ [f])"
    and b: "\<forall>i \<in> set (entities s @ fs @ [f]). 0 \<le> sint i \<and> sint i < sint (nextId s)"
    and z: "0 \<le> sint (nextId s)"
    using assms(1) snoc by (simp_all add: alloc_inv_def)
  then show ?thesis
    by (simp add: createEntity_recycle_branch [OF snoc] alloc_inv_def) 
qed


lemma createEntity_fresh:
  assumes "alloc_inv s"
  shows "fst (createEntity s) \<notin> set (entities s)"
proof (cases "freeIds s" rule: rev_cases)
  case Nil
  have "\<forall>i \<in> set (entities s). sint i < sint (nextId s)"
    using assms by (simp add: alloc_inv_def)
  then have "nextId s \<notin> set (entities s)"
    by fastforce
  then show ?thesis
    by (simp add: createEntity_fresh_branch [OF Nil])
next
  case (snoc fs f)
  have "distinct (entities s @ fs @ [f])"
    using assms snoc by (simp add: alloc_inv_def)
  then have "f \<notin> set (entities s)"
    by auto
  then show ?thesis
    by (simp add: createEntity_recycle_branch [OF snoc])
qed

lemma destroyEntity_alloc_inv:
  assumes "alloc_inv s" and "i \<in> set (entities s)"
  shows "alloc_inv (destroyEntity i s)"
proof -
  have d: "distinct (entities s)" "distinct (freeIds s)" "set (entities s) \<inter> set (freeIds s) = {}"
    and b: "\<forall>j \<in> set (entities s) \<union> set (freeIds s). 0 \<le> sint j \<and> sint j < sint (nextId s)"
    and z: "0 \<le> sint (nextId s)"
    using assms(1) by (simp_all add: alloc_inv_def)
  have i: "i \<notin> set (freeIds s)"
    using d(3) assms(2) by blast
  have "distinct (removeAll i (entities s) @ freeIds s @ [i])"
    using d i by (auto simp: distinct_removeAll)
  moreover have "\<forall>j \<in> set (removeAll i (entities s) @ freeIds s @ [i]).
      0 \<le> sint j \<and> sint j < sint (nextId s)"
    using b assms(2) by auto
  ultimately show ?thesis
    using z by (simp add: alloc_inv_def destroyEntity_def)
qed

lemma nextId_createEntity_le:
  "sint (nextId s) < 2147483647 \<Longrightarrow>
     sint (nextId (snd (createEntity s))) \<le> sint (nextId s) + 1"
  by (cases "freeIds s" rule: rev_cases)
     (simp_all add: createEntity_fresh_branch createEntity_recycle_branch sint_succ)

lemma addComponent_frame:
  "nextId (addComponent e a s) = nextId s"
  "entities (addComponent e a s) = entities s"
  "freeIds (addComponent e a s) = freeIds s"
  by (simp_all add: addComponent_def Let_def split: option.split)

lemma removeComponent_frame:
  "nextId (removeComponent ti e s) = nextId s"
  "entities (removeComponent ti e s) = entities s"
  "freeIds (removeComponent ti e s) = freeIds s"
  by (simp_all add: removeComponent_def split: option.split)

lemma run_alloc_inv:
  "alloc_inv s \<Longrightarrow> live_only cs s \<Longrightarrow> sint (nextId s) + int (length cs) < 2147483648 \<Longrightarrow>
     alloc_inv (run cs s)"
proof (induction cs s rule: run.induct)
  case (1 s)
  then show ?case by simp
next
  case (2 cs s)
  have lt: "sint (nextId s) < 2147483647" using "2.prems"(3) by simp
  have "alloc_inv (snd (createEntity s))"
    using "2.prems"(1) lt by (rule createEntity_alloc_inv)
  moreover have "live_only cs (snd (createEntity s))"
    using "2.prems"(2) by simp
  moreover have "sint (nextId (snd (createEntity s))) + int (length cs) < 2147483648"
    using nextId_createEntity_le [OF lt] "2.prems"(3) by simp
  ultimately show ?case
    using "2.IH" by simp
next
  case (3 i cs s)
  have "alloc_inv (destroyEntity i s)"
    using "3.prems" by (simp add: destroyEntity_alloc_inv)
  moreover have "nextId (destroyEntity i s) = nextId s"
    by (simp add: destroyEntity_def)
  ultimately show ?case
    using "3.IH" "3.prems" by simp
next
  case (4 e a cs s)
  have "alloc_inv (addComponent e a s)"
    using "4.prems"(1) by (simp add: alloc_inv_def addComponent_frame)
  then show ?case
    using "4.IH" "4.prems" by (simp add: addComponent_frame)
next
  case (5 ti e cs s)
  have "alloc_inv (removeComponent ti e s)"
    using "5.prems"(1) by (simp add: alloc_inv_def removeComponent_frame)
  then show ?case
    using "5.IH" "5.prems" by (simp add: removeComponent_frame)
qed

lemma alloc_inv_init: "alloc_inv init"
  by (simp add: alloc_inv_def init_def)

text \<open>
  C1, as the specification states it, fails: \<^verbatim>\<open>destroyEntity\<close> pushes its argument on the
  free list whether or not it was live, so after \<^verbatim>\<open>destroyEntity(0)\<close> on a new manager
  the identifier 0 is handed out twice, once from the free list and once from the counter,
  and createEntity returns an identifier that is live.
\<close>

theorem stray_destroy_duplicates_id:
  "\<not> distinct (entities (run [Destroy 0, Create, Create] init)) \<and>
   fst (createEntity (run [Destroy 0, Create] init)) \<in> set (entities (run [Destroy 0, Create] init))"
  by (simp add: init_def createEntity_def destroyEntity_def)

text \<open>
  C1, amended: for every sequence of fewer than \<open>2^31\<close> calls on a new manager in which
  \<^verbatim>\<open>destroyEntity\<close> is only called on identifiers that are live at the call, no two live
  entities share an identifier, and the next \<^verbatim>\<open>createEntity\<close> returns an identifier that
  is not in the live set.
\<close>

theorem live_only_ids_unique:
  assumes "live_only cs init" and "length cs < 2 ^ 31"
  shows "distinct (entities (run cs init)) \<and>
         fst (createEntity (run cs init)) \<notin> set (entities (run cs init))"
proof -
  have "sint (nextId init) + int (length cs) < 2147483648"
    using assms(2) by (simp add: init_def)
  then have inv: "alloc_inv (run cs init)"
    using alloc_inv_init assms(1) by (simp add: run_alloc_inv)
  then have "distinct (entities (run cs init))"
    by (simp add: alloc_inv_def)
  then show ?thesis
    using createEntity_fresh [OF inv] by simp
qed

theorem live_only_ids_unique_witness:
  "live_only [Create, Create, Create, Destroy 1, Create, Create] init \<and>
   length [Create, Create, Create, Destroy 1, Create, Create] < (2::nat) ^ 31 \<and>
   entities (run [Create, Create, Create, Destroy 1, Create, Create] init) = [0, 2, 1, 3] \<and>
   distinct (entities (run [Create, Create, Create, Destroy 1, Create, Create] init)) \<and>
   fst (createEntity (run [Create, Create, Create, Destroy 1, Create, Create] init)) = 4"
  using live_only_ids_unique [of "[Create, Create, Create, Destroy 1, Create, Create]"]
  by (simp add: init_def createEntity_def destroyEntity_def)

text \<open>
  C3, as the specification states it, fails in the word "unused" and in "monotonically
  increasing". After \<^verbatim>\<open>createEntity\<close>, \<^verbatim>\<open>destroyEntity(1)\<close> of an identifier that is not live
  and \<^verbatim>\<open>createEntity\<close>, the free list is empty, the identifiers 0 and 1 are live, and the
  next \<^verbatim>\<open>createEntity\<close> takes 1 from the counter: an identifier in use. And when the counter
  holds the greatest \<^verbatim>\<open>int\<close>, the identifier after it is smaller.
\<close>

theorem counter_id_in_use:
  "freeIds (run [Create, Destroy 1, Create] init) = [] \<and>
   entities (run [Create, Destroy 1, Create] init) = [0, 1] \<and>
   fst (createEntity (run [Create, Destroy 1, Create] init)) = 1 \<and>
   fst (createEntity (init\<lparr>nextId := 2147483647\<rparr>)) = 2147483647 \<and>
   sint (fst (createEntity (snd (createEntity (init\<lparr>nextId := 2147483647\<rparr>)))))
     < sint (fst (createEntity (init\<lparr>nextId := 2147483647\<rparr>)))"
  by (simp add: init_def createEntity_def destroyEntity_def)

lemma alloc_inv_counter_unused:
  assumes "alloc_inv u"
  shows "nextId u \<notin> set (entities u @ freeIds u)"
proof -
  have "\<forall>i \<in> set (entities u @ freeIds u). sint i < sint (nextId u)"
    using assms by (simp add: alloc_inv_def)
  then show ?thesis
    by fastforce
qed

text \<open>
  C3, amended: \<^verbatim>\<open>createEntity\<close> pops the back of the free list when there is one, so
  identifiers come back last destroyed first, and otherwise returns the counter and
  increments it; no other call changes the counter. The identifier returned is appended to
  the live vector, and the function is total. The identifier taken from the counter is
  unused, that is neither live nor free, and above every live and free identifier, after
  fewer than \<open>2^31\<close> calls on a new manager in which \<^verbatim>\<open>destroyEntity\<close> is only called on live
  identifiers; the identifiers taken from the counter increase strictly while the counter
  is below the greatest \<^verbatim>\<open>int\<close>. After creating 0, 1, 2 and destroying 1, the next identifier
  is 1.
\<close>

theorem createEntity_recycles_then_allocates:
  "createEntity (s\<lparr>freeIds := fs @ [f]\<rparr>) =
     (f, s\<lparr>freeIds := fs, entities := entities s @ [f]\<rparr>) \<and>
   createEntity (s\<lparr>freeIds := []\<rparr>) =
     (nextId s, s\<lparr>freeIds := [], nextId := nextId s + 1, entities := entities s @ [nextId s]\<rparr>) \<and>
   fst (createEntity (destroyEntity j (destroyEntity i s))) = j \<and>
   fst (createEntity (snd (createEntity (destroyEntity j (destroyEntity i s))))) = i \<and>
   (sint (nextId t) < 2147483647 \<longrightarrow> sint (nextId t) < sint (nextId t + 1)) \<and>
   nextId (destroyEntity i s) = nextId s \<and>
   nextId (addComponent e a s) = nextId s \<and>
   nextId (removeComponent ti e s) = nextId s \<and>
   entities (snd (createEntity s)) = entities s @ [fst (createEntity s)] \<and>
   fst (createEntity s) \<in> set (entities (snd (createEntity s))) \<and>
   components (snd (createEntity s)) = components s \<and>
   (live_only cs init \<longrightarrow> length cs < 2 ^ 31 \<longrightarrow>
      nextId (run cs init) \<notin> set (entities (run cs init) @ freeIds (run cs init)) \<and>
      (\<forall>k \<in> set (entities (run cs init) @ freeIds (run cs init)).
         sint k < sint (nextId (run cs init))) \<and>
      (freeIds (run cs init) = [] \<longrightarrow>
         fst (createEntity (run cs init)) = nextId (run cs init))) \<and>
   entities (run [Create, Create, Create] init) = [0, 1, 2] \<and>
   fst (createEntity (run [Create, Create, Create, Destroy 1] init)) = 1"
proof -
  have c1: "createEntity (s\<lparr>freeIds := fs @ [f]\<rparr>) =
      (f, s\<lparr>freeIds := fs, entities := entities s @ [f]\<rparr>)"
    by (simp add: createEntity_def)
  have c2: "createEntity (s\<lparr>freeIds := []\<rparr>) =
      (nextId s, s\<lparr>freeIds := [], nextId := nextId s + 1, entities := entities s @ [nextId s]\<rparr>)"
    by (simp add: createEntity_def Let_def)
  have f1: "freeIds (destroyEntity j (destroyEntity i s)) = (freeIds s @ [i]) @ [j]"
    by (simp add: destroyEntity_def)
  have c3: "fst (createEntity (destroyEntity j (destroyEntity i s))) = j"
    by (simp add: createEntity_recycle_branch [OF f1])
  have f2: "freeIds (snd (createEntity (destroyEntity j (destroyEntity i s)))) = freeIds s @ [i]"
    by (simp add: createEntity_recycle_branch [OF f1])
  have c4: "fst (createEntity (snd (createEntity (destroyEntity j (destroyEntity i s))))) = i"
    by (simp add: createEntity_recycle_branch [OF f2])
  have c5: "sint (nextId t) < 2147483647 \<longrightarrow> sint (nextId t) < sint (nextId t + 1)"
    by (simp add: sint_succ)
  have c6: "nextId (destroyEntity i s) = nextId s"
    by (simp add: destroyEntity_def)
  have c6a: "nextId (addComponent e a s) = nextId s"
    by (rule addComponent_frame)
  have c6b: "nextId (removeComponent ti e s) = nextId s"
    by (rule removeComponent_frame)
  have c7: "entities (snd (createEntity s)) = entities s @ [fst (createEntity s)]"
    by (simp add: createEntity_def Let_def)
  have c7a: "fst (createEntity s) \<in> set (entities (snd (createEntity s)))"
    by (simp add: c7)
  have c8: "components (snd (createEntity s)) = components s"
    by (simp add: createEntity_def Let_def)
  have c9: "live_only cs init \<longrightarrow> length cs < 2 ^ 31 \<longrightarrow>
      nextId (run cs init) \<notin> set (entities (run cs init) @ freeIds (run cs init)) \<and>
      (\<forall>k \<in> set (entities (run cs init) @ freeIds (run cs init)).
         sint k < sint (nextId (run cs init))) \<and>
      (freeIds (run cs init) = [] \<longrightarrow>
         fst (createEntity (run cs init)) = nextId (run cs init))"
  proof (intro impI)
    assume lo: "live_only cs init" and len: "length cs < 2 ^ 31"
    have "sint (nextId init) + int (length cs) < 2147483648"
      using len by (simp add: init_def)
    then have inv: "alloc_inv (run cs init)"
      using alloc_inv_init lo by (simp add: run_alloc_inv)
    have b: "\<forall>k \<in> set (entities (run cs init) @ freeIds (run cs init)).
        sint k < sint (nextId (run cs init))"
      using inv by (simp add: alloc_inv_def)
    have d: "freeIds (run cs init) = [] \<longrightarrow>
        fst (createEntity (run cs init)) = nextId (run cs init)"
      by (simp add: createEntity_fresh_branch)
    show "nextId (run cs init) \<notin> set (entities (run cs init) @ freeIds (run cs init)) \<and>
      (\<forall>k \<in> set (entities (run cs init) @ freeIds (run cs init)).
         sint k < sint (nextId (run cs init))) \<and>
      (freeIds (run cs init) = [] \<longrightarrow>
         fst (createEntity (run cs init)) = nextId (run cs init))"
      using alloc_inv_counter_unused [OF inv] b d by blast
  qed
  have c10: "entities (run [Create, Create, Create] init) = [0, 1, 2]"
    by (simp add: init_def createEntity_def)
  have c11: "fst (createEntity (run [Create, Create, Create, Destroy 1] init)) = 1"
    by (simp add: init_def createEntity_def destroyEntity_def)
  show ?thesis
    by (intro conjI) (rule c1 c2 c3 c4 c5 c6 c6a c6b c7 c7a c8 c9 c10 c11)+
qed

theorem createEntity_recycles_then_allocates_witness:
  "sint (nextId init) < 2147483647 \<and> sint (nextId init) < sint (nextId init + 1) \<and>
   createEntity (init\<lparr>freeIds := [5, 3] @ [4]\<rparr>) =
     (4, init\<lparr>freeIds := [5, 3], entities := entities init @ [4]\<rparr>) \<and>
   live_only [Create, Create, Create, Destroy 1, Create] init \<and>
   length [Create, Create, Create, Destroy 1, Create] < (2::nat) ^ 31 \<and>
   freeIds (run [Create, Create, Create, Destroy 1, Create] init) = [] \<and>
   entities (run [Create, Create, Create, Destroy 1, Create] init) = [0, 2, 1] \<and>
   fst (createEntity (run [Create, Create, Create, Destroy 1, Create] init)) = 3 \<and>
   3 \<notin> set (entities (run [Create, Create, Create, Destroy 1, Create] init)
              @ freeIds (run [Create, Create, Create, Destroy 1, Create] init))"
  using createEntity_recycles_then_allocates
    [where s = init and fs = "[5, 3]" and f = 4 and t = init and i = 0 and j = 0
       and cs = "[Create, Create, Create, Destroy 1, Create]"]
  by (simp add: init_def createEntity_def destroyEntity_def)

section \<open>Registry and storage lemmas\<close>

lemma map_of_map_snd:
  "map_of (map (\<lambda>kv. (fst kv, f (snd kv))) al) k = map_option f (map_of al k)"
  by (induction al) auto

lemma lookup_addComponent:
  "map_of (components (addComponent e a s)) ti =
     (if ti = type_arg a
      then Some (emplace e a (case map_of (components s) (type_arg a) of
                                None \<Rightarrow> new_storage (type_arg a) | Some ptr \<Rightarrow> ptr))
      else map_of (components s) ti)"
  by (simp add: addComponent_def Let_def update_conv' map_add_def split: option.split)

lemma lookup_removeComponent:
  "map_of (components (removeComponent ti e s)) tj =
     (if tj = ti then map_option (remove e) (map_of (components s) ti)
      else map_of (components s) tj)"
  by (simp add: removeComponent_def update_conv' split: option.split)

lemma lookup_destroyEntity:
  "map_of (components (destroyEntity i s)) ti = map_option (remove i) (map_of (components s) ti)"
  by (simp add: destroyEntity_def map_of_map_snd)

lemma lookup_createEntity:
  "components (snd (createEntity s)) = components s"
  by (simp add: createEntity_def Let_def)

lemma advance_split:
  "fst kv \<notin> fst ` set pre \<Longrightarrow> advance (fst kv) (pre @ kv # rest) = begin_it rest"
  by (induction pre) auto

lemma map_of_split:
  "fst kv \<notin> fst ` set pre \<Longrightarrow> map_of (pre @ kv # rest) (fst kv) = Some (snd kv)"
  by (induction pre) auto

lemma forEach_loop_observe:
  assumes "storage_all ti m = pre @ rest" and "distinct (map fst (pre @ rest))"
  shows "forEach_loop ti observe (begin_it rest) (m, u) = Some (Inr (m, u @ rest))"
  using assms
proof (induction rest arbitrary: pre u)
  case Nil
  show ?case
    by (subst forEach_loop.simps) (simp add: begin_it_def)
next
  case (Cons kv rest)
  have notin: "fst kv \<notin> fst ` set pre"
    using Cons.prems(2) by auto
  have look: "map_of (storage_all ti m) (fst kv) = Some (snd kv)"
    using map_of_split [OF notin] Cons.prems(1) by simp
  have adv: "advance (fst kv) (storage_all ti m) = begin_it rest"
    using advance_split [OF notin] Cons.prems(1) by simp
  have ih: "forEach_loop ti observe (begin_it rest) (m, u @ [kv]) = Some (Inr (m, (u @ [kv]) @ rest))"
    using Cons.IH [of "pre @ [kv]" "u @ [kv]"] Cons.prems by simp
  have b: "begin_it (kv # rest) = Some (fst kv)"
    by (simp add: begin_it_def)
  show ?case
    by (subst forEach_loop.simps) (simp add: b look adv observe_def ih)
qed

lemma forEach_observe:
  assumes "keys_distinct m"
  shows "forEach ti observe (m, u) = Some (Inr (m, u @ storage_all ti m))"
proof (cases "map_of (components m) ti")
  case None
  then show ?thesis by (simp add: forEach_def storage_all_def)
next
  case (Some ptr)
  then have "(ti, ptr) \<in> set (components m)"
    by (rule map_of_SomeD)
  then have d: "distinct (map fst (data ptr))"
    using assms by (auto simp: keys_distinct_def)
  have sa: "storage_all ti m = [] @ data ptr"
    using Some by (simp add: storage_all_def all_def)
  show ?thesis
    using forEach_loop_observe [OF sa, of u] d Some
    by (simp add: forEach_def all_def storage_all_def)
qed

lemma forEach_loop_erase_current:
  assumes "map_of (storage_all ti (fst s)) e = Some c"
    and "map_of (storage_all ti (fst (func e c s))) e = None"
  shows "forEach_loop ti func (Some e) s = Some (Inl InvalidatedIterator)"
  by (subst forEach_loop.simps) (simp add: assms)

lemma update_twice: "AList.update k v2 (AList.update k v1 al) = AList.update k v2 al"
  by (induction al) auto

lemma update_registered:
  "k \<notin> fst ` set al \<Longrightarrow> AList.update k v (al @ [(k, w)]) = AList.update k v al"
  by (induction al) auto

lemma set_update_subset: "set (AList.update k v al) \<subseteq> insert (k, v) (set al)"
  by (induction al) auto

lemma set_delete_subset: "set (AList.delete k al) \<subseteq> set al"
  by (induction al) auto

lemma filter_key_distinct:
  "distinct (map fst al) \<Longrightarrow> map_of al k = Some v \<Longrightarrow> filter (\<lambda>kv. fst kv = k) al = [(k, v)]"
proof (induction al)
  case Nil
  then show ?case by simp
next
  case (Cons a al)
  show ?case
  proof (cases "fst a = k")
    case True
    then have "k \<notin> fst ` set al" using Cons.prems(1) by auto
    then have "filter (\<lambda>kv. fst kv = k) al = []"
      by (auto simp: filter_empty_conv)
    then show ?thesis using True Cons.prems(2) by (cases a) simp
  next
    case False
    then show ?thesis using Cons by simp
  qed
qed

lemma addComponent_eq:
  "addComponent e a s =
     s\<lparr>components := AList.update (type_arg a) (emplace e a (store_for (type_arg a) s)) (components s)\<rparr>"
proof (cases "map_of (components s) (type_arg a)")
  case None
  then have "type_arg a \<notin> fst ` set (components s)"
    by (simp add: map_of_eq_None_iff)
  then show ?thesis
    using None by (simp add: addComponent_def Let_def store_for_def update_registered)
next
  case (Some ptr)
  then show ?thesis
    by (simp add: addComponent_def Let_def store_for_def)
qed

lemma emplaced_rebuild:
  "fst (construct (snd (construct a))) = fst (construct a) \<Longrightarrow> emplaced e a st = fst (construct a)"
  by (simp add: emplaced_def)

lemma emplaced_present:
  "map_of (data st) e \<noteq> None \<Longrightarrow> emplaced e a st = fst (construct (snd (construct a)))"
  by (auto simp: emplaced_def)

lemma emplace_twice:
  "emplace e a2 (emplace e a1 st) =
     st\<lparr>data := AList.update e (fst (construct (snd (construct a2)))) (data st)\<rparr>"
proof -
  have "map_of (data (emplace e a1 st)) e \<noteq> None"
    by (simp add: emplace_eq update_conv')
  then have "emplaced e a2 (emplace e a1 st) = fst (construct (snd (construct a2)))"
    by (rule emplaced_present)
  then show ?thesis
    by (simp add: emplace_eq [of e a2] emplace_eq [of e a1 st] update_twice)
qed

lemma addComponent_twice:
  assumes "type_arg a1 = type_arg a2"
  shows "addComponent e a2 (addComponent e a1 s) =
     s\<lparr>components := AList.update (type_arg a2)
        ((store_for (type_arg a2) s)
           \<lparr>data := AList.update e (fst (construct (snd (construct a2))))
              (data (store_for (type_arg a2) s))\<rparr>)
        (components s)\<rparr>"
proof -
  have "store_for (type_arg a1) (addComponent e a1 s) = emplace e a1 (store_for (type_arg a1) s)"
    by (simp add: store_for_def lookup_addComponent)
  then have st: "store_for (type_arg a2) (addComponent e a1 s)
      = emplace e a1 (store_for (type_arg a2) s)"
    by (simp add: assms)
  have "addComponent e a2 (addComponent e a1 s) =
      (addComponent e a1 s)\<lparr>components :=
         AList.update (type_arg a2) (emplace e a2 (emplace e a1 (store_for (type_arg a2) s)))
           (components (addComponent e a1 s))\<rparr>"
    by (simp add: addComponent_eq [of e a2] st)
  also have "\<dots> = s\<lparr>components := AList.update (type_arg a2)
        (emplace e a2 (emplace e a1 (store_for (type_arg a2) s))) (components s)\<rparr>"
    by (simp add: addComponent_eq [of e a1 s] assms update_twice)
  finally show ?thesis
    by (simp add: emplace_twice)
qed

lemma addComponent_overwrites:
  assumes "type_arg a1 = type_arg a2"
    and "fst (construct (snd (construct a2))) = fst (construct a2)"
  shows "addComponent e a2 (addComponent e a1 s) = addComponent e a2 s"
  by (simp add: addComponent_twice [OF assms(1)] addComponent_eq [of e a2 s] emplace_eq
      emplaced_rebuild [OF assms(2)] assms(2))

lemma keys_distinct_addComponent:
  assumes "keys_distinct s"
  shows "keys_distinct (addComponent e a s)"
proof -
  have "distinct (map fst (data (store_for (type_arg a) s)))"
  proof (cases "map_of (components s) (type_arg a)")
    case None
    then show ?thesis by (simp add: store_for_def new_storage_def)
  next
    case (Some ptr)
    then have "(type_arg a, ptr) \<in> set (components s)" by (rule map_of_SomeD)
    then show ?thesis using assms Some by (auto simp: keys_distinct_def store_for_def)
  qed
  then have "distinct (map fst (data (emplace e a (store_for (type_arg a) s))))"
    by (simp add: emplace_eq distinct_update)
  then show ?thesis
    using assms set_update_subset [of "type_arg a" "emplace e a (store_for (type_arg a) s)" "components s"]
    by (auto simp: keys_distinct_def addComponent_eq)
qed

lemma keys_distinct_removeComponent:
  assumes "keys_distinct s"
  shows "keys_distinct (removeComponent ti e s)"
proof (cases "map_of (components s) ti")
  case None
  then show ?thesis using assms by (simp add: removeComponent_def)
next
  case (Some ptr)
  then have "(ti, ptr) \<in> set (components s)" by (rule map_of_SomeD)
  then have "distinct (map fst (data (remove e ptr)))"
    using assms by (auto simp: keys_distinct_def remove_def distinct_delete)
  then show ?thesis
    using assms Some set_update_subset [of ti "remove e ptr" "components s"]
    by (auto simp: keys_distinct_def removeComponent_def)
qed

lemma keys_distinct_destroyEntity:
  "keys_distinct s \<Longrightarrow> keys_distinct (destroyEntity i s)"
  by (auto simp: keys_distinct_def destroyEntity_def remove_def distinct_delete)

lemma keys_distinct_createEntity:
  "keys_distinct s \<Longrightarrow> keys_distinct (snd (createEntity s))"
  by (simp add: keys_distinct_def lookup_createEntity)

lemma keys_distinct_run:
  "keys_distinct s \<Longrightarrow> keys_distinct (run cs s)"
  by (induction cs s rule: run.induct)
     (simp_all add: keys_distinct_createEntity keys_distinct_destroyEntity
        keys_distinct_addComponent keys_distinct_removeComponent)

lemma keys_distinct_init: "keys_distinct init"
  by (simp add: keys_distinct_def init_def)

section \<open>Component operations\<close>

text \<open>
  What two \<^verbatim>\<open>addComponent<T>\<close> calls for one entity leave: the component built by the second
  construction from the second pack.
\<close>

lemma getComponent_after_two_adds:
  assumes "type_arg a1 = type_arg a2"
  shows "getComponent (type_arg a2) e (addComponent e a2 (addComponent e a1 s))
     = Some (fst (construct (snd (construct a2))))"
  by (simp add: addComponent_twice [OF assms] getComponent_def get_def update_conv')

text \<open>
  When the pack is not consumed by the first construction (lvalues, literals, arithmetic
  values), the last write wins: \<open>v2\<close> is retrievable, nothing of \<open>v1\<close> is kept, and the
  storage holds one node for the entity.
\<close>

lemma addComponent_last_write_wins:
  assumes "type_arg a1 = type_arg (ByCopy c2)"
  shows "getComponent (type_arg (ByCopy c2)) e (addComponent e (ByCopy c2) (addComponent e a1 s))
           = Some c2 \<and>
         addComponent e (ByCopy c2) (addComponent e a1 s) = addComponent e (ByCopy c2) s \<and>
         (keys_distinct s \<longrightarrow>
            filter (\<lambda>kv. fst kv = e)
              (storage_all (type_arg (ByCopy c2)) (addComponent e (ByCopy c2) (addComponent e a1 s)))
              = [(e, c2)])"
proof -
  let ?a2 = "ByCopy c2"
  let ?s2 = "addComponent e ?a2 (addComponent e a1 s)"
  have g: "getComponent (type_arg ?a2) e ?s2 = Some c2"
    using getComponent_after_two_adds [OF assms, of e s] by simp
  then have look: "map_of (storage_all (type_arg ?a2) ?s2) e = Some c2"
    by (simp add: getComponent_def get_def storage_all_def all_def split: option.splits)
  have ow: "?s2 = addComponent e ?a2 s"
    using assms by (rule addComponent_overwrites) simp
  have "keys_distinct s \<longrightarrow>
      filter (\<lambda>kv. fst kv = e) (storage_all (type_arg ?a2) ?s2) = [(e, c2)]"
  proof
    assume "keys_distinct s"
    then have kd: "keys_distinct ?s2"
      by (simp add: keys_distinct_addComponent)
    obtain ptr where ptr: "map_of (components ?s2) (type_arg ?a2) = Some ptr"
      by (simp add: lookup_addComponent)
    then have "(type_arg ?a2, ptr) \<in> set (components ?s2)"
      by (rule map_of_SomeD)
    then have "distinct (map fst (data ptr))"
      using kd by (auto simp: keys_distinct_def)
    then have "distinct (map fst (storage_all (type_arg ?a2) ?s2))"
      using ptr by (simp add: storage_all_def all_def)
    then show "filter (\<lambda>kv. fst kv = e) (storage_all (type_arg ?a2) ?s2) = [(e, c2)]"
      using look by (rule filter_key_distinct)
  qed
  then show ?thesis
    using g ow by simp
qed

text \<open>
  C5 fails on the code. \<^verbatim>\<open>emplace\<close> forwards its pack twice: once into the temporary passed
  to \<^verbatim>\<open>data.emplace\<close>, and, when the key is present, once more into the value assigned to
  the found node. For \<^verbatim>\<open>addComponent<Name>(0, Name{ "a" })\<close> followed by
  \<^verbatim>\<open>addComponent<Name>(0, Name{ "b" })\<close> the second construction moves from a \<^verbatim>\<open>Name\<close> that
  the first has already moved from, and \<^verbatim>\<open>getComponent<Name>(0)\<close> finds the moved-from
  name, not \<open>b\<close>.
\<close>

theorem overwrite_with_rvalue_stores_moved_from:
  "getComponent TName 0
     (addComponent 0 (rvalue_name ''b'')
        (addComponent 0 (rvalue_name ''a'') init))
     = Some (CName \<lparr>val = []\<rparr>) \<and>
   emplace 0 (rvalue_name ''b'')
     \<lparr>elem_type = TName, data = [(0, CName \<lparr>val = ''a''\<rparr>)]\<rparr>
     = \<lparr>elem_type = TName, data = [(0, CName \<lparr>val = []\<rparr>)]\<rparr>"
proof -
  have t: "type_arg (rvalue_name ''a'') = type_arg (rvalue_name ''b'')"
    by (simp add: type_arg_def)
  have "getComponent TName 0
     (addComponent 0 (rvalue_name ''b'')
        (addComponent 0 (rvalue_name ''a'') init))
     = Some (CName \<lparr>val = []\<rparr>)"
    using getComponent_after_two_adds [OF t, of 0 init] by (simp add: type_arg_def)
  moreover have "emplace 0 (rvalue_name ''b'')
     \<lparr>elem_type = TName, data = [(0, CName \<lparr>val = ''a''\<rparr>)]\<rparr>
     = \<lparr>elem_type = TName, data = [(0, CName \<lparr>val = []\<rparr>)]\<rparr>"
    by (simp add: emplace_def)
  ultimately show ?thesis
    by simp
qed

lemma storage_all_addComponent_other:
  "tb \<noteq> type_arg a \<Longrightarrow> storage_all tb (addComponent e a s) = storage_all tb s"
  by (simp add: storage_all_def lookup_addComponent)

text \<open>
  C9: for component types \<open>A \<noteq> B\<close>, \<^verbatim>\<open>addComponent<A>(e, v)\<close> leaves the storage registered
  for \<open>B\<close> as it was: \<^verbatim>\<open>hasComponent<B>\<close> and \<^verbatim>\<open>getComponent<B>\<close> give the same
  answer for every entity, and \<^verbatim>\<open>forEach<B>\<close> shows a recording visitor the same pairs
  before and after.
\<close>

theorem addComponent_isolated:
  assumes "tb \<noteq> type_arg a"
  shows "map_of (components (addComponent e a s)) tb = map_of (components s) tb \<and>
         hasComponent tb e' (addComponent e a s) = hasComponent tb e' s \<and>
         getComponent tb e' (addComponent e a s) = getComponent tb e' s \<and>
         storage_all tb (addComponent e a s) = storage_all tb s \<and>
         (keys_distinct s \<longrightarrow>
            forEach tb observe (s, []) = Some (Inr (s, storage_all tb s)) \<and>
            forEach tb observe (addComponent e a s, [])
              = Some (Inr (addComponent e a s, storage_all tb s)))"
proof -
  have l: "map_of (components (addComponent e a s)) tb = map_of (components s) tb"
    using assms by (simp add: lookup_addComponent)
  have h: "hasComponent tb e' (addComponent e a s) = hasComponent tb e' s"
    by (simp add: hasComponent_def l)
  have g: "getComponent tb e' (addComponent e a s) = getComponent tb e' s"
    by (simp add: getComponent_def l)
  have a: "storage_all tb (addComponent e a s) = storage_all tb s"
    using assms by (rule storage_all_addComponent_other)
  have f: "keys_distinct s \<longrightarrow>
      forEach tb observe (s, []) = Some (Inr (s, storage_all tb s)) \<and>
      forEach tb observe (addComponent e a s, [])
        = Some (Inr (addComponent e a s, storage_all tb s))"
    using forEach_observe [of s tb "[]"]
      forEach_observe [OF keys_distinct_addComponent, of s tb e a "[]"] a
    by simp
  show ?thesis
    by (intro conjI) (rule l h g a f)+
qed

theorem addComponent_isolated_witness:
  "THealth \<noteq> type_arg (rvalue_name ''a'') \<and>
   keys_distinct (addComponent 0 (health 3) init) \<and>
   getComponent THealth 0 (addComponent 0 (rvalue_name ''a'') (addComponent 0 (health 3) init))
     = Some (CHealth \<lparr>hp = 3\<rparr>) \<and>
   forEach THealth observe
     (addComponent 0 (rvalue_name ''a'') (addComponent 0 (health 3) init), [])
     = Some (Inr (addComponent 0 (rvalue_name ''a'') (addComponent 0 (health 3) init),
                  [(0, CHealth \<lparr>hp = 3\<rparr>)]))"
proof -
  have k: "keys_distinct (addComponent 0 (health 3) init)"
    by (simp add: keys_distinct_addComponent keys_distinct_init)
  have g: "getComponent THealth 0 (addComponent 0 (health 3) init) = Some (CHealth \<lparr>hp = 3\<rparr>)"
    by (simp add: init_def addComponent_def getComponent_def get_def emplace_eq emplaced_def type_arg_def new_storage_def)
  have a: "storage_all THealth (addComponent 0 (health 3) init) = [(0, CHealth \<lparr>hp = 3\<rparr>)]"
    by (simp add: init_def addComponent_def storage_all_def all_def emplace_eq emplaced_def type_arg_def new_storage_def)
  show ?thesis
    using addComponent_isolated
      [of THealth "rvalue_name ''a''" 0 "addComponent 0 (health 3) init" 0] k g a
    by (simp add: type_arg_def)
qed

text \<open>
  The component operations do not read the live vector, the free list or the counter. For
  every identifier \<open>e\<close>, live or not, after \<^verbatim>\<open>addComponent<T>(e, args...)\<close> the entity has a
  component of type \<open>T\<close>, \<^verbatim>\<open>getComponent<T>(e)\<close> finds the component \<^verbatim>\<open>emplace\<close> left,
  \<^verbatim>\<open>forEach<T>\<close> visits it, and the live vector is unchanged. The component is the one the
  pack builds when \<open>e\<close> had no component of type \<open>T\<close> before.
\<close>

lemma addComponent_ignores_liveness:
  "hasComponent (type_arg a) e (addComponent e a s) \<and>
   getComponent (type_arg a) e (addComponent e a s)
     = Some (emplaced e a (store_for (type_arg a) s)) \<and>
   (\<not> hasComponent (type_arg a) e s \<longrightarrow>
      getComponent (type_arg a) e (addComponent e a s) = Some (fst (construct a))) \<and>
   entities (addComponent e a s) = entities s \<and>
   components (addComponent e a (s\<lparr>entities := es, freeIds := fs, nextId := n\<rparr>))
     = components (addComponent e a s) \<and>
   hasComponent ti e (s\<lparr>entities := es, freeIds := fs, nextId := n\<rparr>) = hasComponent ti e s \<and>
   getComponent ti e (s\<lparr>entities := es, freeIds := fs, nextId := n\<rparr>) = getComponent ti e s \<and>
   components (removeComponent ti e (s\<lparr>entities := es, freeIds := fs, nextId := n\<rparr>))
     = components (removeComponent ti e s) \<and>
   (keys_distinct s \<longrightarrow>
      forEach (type_arg a) observe (addComponent e a s, [])
        = Some (Inr (addComponent e a s, storage_all (type_arg a) (addComponent e a s))) \<and>
      (e, emplaced e a (store_for (type_arg a) s))
        \<in> set (storage_all (type_arg a) (addComponent e a s)))"
proof -
  let ?c = "emplaced e a (store_for (type_arg a) s)"
  have look: "map_of (storage_all (type_arg a) (addComponent e a s)) e = Some ?c"
    by (simp add: storage_all_def all_def lookup_addComponent emplace_eq update_conv' store_for_def)
  have h: "hasComponent (type_arg a) e (addComponent e a s)"
    using look by (simp add: hasComponent_def has_def storage_all_def all_def split: option.splits)
  have g: "getComponent (type_arg a) e (addComponent e a s) = Some ?c"
    using look by (simp add: getComponent_def get_def storage_all_def all_def split: option.splits)
  have fresh: "\<not> hasComponent (type_arg a) e s \<longrightarrow>
      getComponent (type_arg a) e (addComponent e a s) = Some (fst (construct a))"
  proof
    assume "\<not> hasComponent (type_arg a) e s"
    then have "map_of (data (store_for (type_arg a) s)) e = None"
      by (simp add: hasComponent_def has_def store_for_def new_storage_def split: option.splits)
    then show "getComponent (type_arg a) e (addComponent e a s) = Some (fst (construct a))"
      by (simp add: g emplaced_absent)
  qed
  have en: "entities (addComponent e a s) = entities s"
    by (rule addComponent_frame)
  have i1: "components (addComponent e a (s\<lparr>entities := es, freeIds := fs, nextId := n\<rparr>))
      = components (addComponent e a s)"
    by (simp add: addComponent_eq store_for_def)
  have i2: "hasComponent ti e (s\<lparr>entities := es, freeIds := fs, nextId := n\<rparr>) = hasComponent ti e s"
    by (simp add: hasComponent_def)
  have i3: "getComponent ti e (s\<lparr>entities := es, freeIds := fs, nextId := n\<rparr>) = getComponent ti e s"
    by (simp add: getComponent_def)
  have i4: "components (removeComponent ti e (s\<lparr>entities := es, freeIds := fs, nextId := n\<rparr>))
      = components (removeComponent ti e s)"
    by (simp add: removeComponent_def split: option.split)
  have f: "keys_distinct s \<longrightarrow>
      forEach (type_arg a) observe (addComponent e a s, [])
        = Some (Inr (addComponent e a s, storage_all (type_arg a) (addComponent e a s))) \<and>
      (e, ?c) \<in> set (storage_all (type_arg a) (addComponent e a s))"
    using forEach_observe [OF keys_distinct_addComponent, of s "type_arg a" e a "[]"]
      map_of_SomeD [OF look]
    by simp
  show ?thesis
    by (intro conjI) (rule h g fresh en i1 i2 i3 i4 f)+
qed

text \<open>
  C10 fails on the code, by the defect of C5. The identifier 7 is never created, and
  \<^verbatim>\<open>addComponent<Name>(7, Name{ "a" })\<close> gives it a name all the same; after
  \<^verbatim>\<open>addComponent<Name>(7, Name{ "b" })\<close> the entity has a name, but the one stored is the
  moved-from name, not \<open>b\<close>.
\<close>

theorem nonlive_overwrite_stores_moved_from:
  "7 \<notin> set (entities (addComponent 7 (rvalue_name ''a'') init)) \<and>
   getComponent TName 7 (addComponent 7 (rvalue_name ''a'') init)
     = Some (CName \<lparr>val = ''a''\<rparr>) \<and>
   hasComponent TName 7
     (addComponent 7 (rvalue_name ''b'')
        (addComponent 7 (rvalue_name ''a'') init)) \<and>
   getComponent TName 7
     (addComponent 7 (rvalue_name ''b'')
        (addComponent 7 (rvalue_name ''a'') init))
     = Some (CName \<lparr>val = []\<rparr>)"
proof -
  let ?s1 = "addComponent 7 (rvalue_name ''a'') init"
  have s1: "?s1 = \<lparr>nextId = 0, entities = [], freeIds = [],
      components = [(TName, \<lparr>elem_type = TName, data = [(7, CName \<lparr>val = ''a''\<rparr>)]\<rparr>)]\<rparr>"
    by (simp add: init_def addComponent_def emplace_def type_arg_def new_storage_def)
  have s2: "addComponent 7 (rvalue_name ''b'') ?s1 = \<lparr>nextId = 0, entities = [],
      freeIds = [], components = [(TName, \<lparr>elem_type = TName, data = [(7, CName \<lparr>val = []\<rparr>)]\<rparr>)]\<rparr>"
    unfolding s1 by (simp add: addComponent_def emplace_def type_arg_def)
  show ?thesis
    unfolding s2 unfolding s1 by (simp add: hasComponent_def getComponent_def has_def get_def)
qed

lemma storage_all_destroyEntity:
  "storage_all ti (destroyEntity i s) = AList.delete i (storage_all ti s)"
  by (simp add: storage_all_def all_def lookup_destroyEntity remove_def split: option.split)

text \<open>
  C4: after \<^verbatim>\<open>destroyEntity(e)\<close>, for every component type \<open>T\<close>, \<^verbatim>\<open>hasComponent<T>(e)\<close>
  is false, \<^verbatim>\<open>getComponent<T>(e)\<close> is absent and \<^verbatim>\<open>forEach<T>\<close> does not visit \<open>e\<close>.
  \<^verbatim>\<open>remove(e)\<close> is applied to every storage of the registry: no storage holds \<open>e\<close>
  afterwards, every storage stays registered, and the entries of the other entities stay.
\<close>

theorem destroyEntity_cascades:
  "\<not> hasComponent ti e (destroyEntity e s) \<and>
   getComponent ti e (destroyEntity e s) = None \<and>
   (\<forall>kv \<in> set (components (destroyEntity e s)). e \<notin> fst ` set (data (snd kv))) \<and>
   map fst (components (destroyEntity e s)) = map fst (components s) \<and>
   storage_all ti (destroyEntity e s) = AList.delete e (storage_all ti s) \<and>
   (keys_distinct s \<longrightarrow>
      forEach ti observe (destroyEntity e s, [])
        = Some (Inr (destroyEntity e s, AList.delete e (storage_all ti s))) \<and>
      e \<notin> fst ` set (AList.delete e (storage_all ti s)))"
proof -
  have a: "storage_all ti (destroyEntity e s) = AList.delete e (storage_all ti s)"
    by (rule storage_all_destroyEntity)
  have abs: "map_of (storage_all ti (destroyEntity e s)) e = None"
    by (simp add: a delete_conv')
  have h: "\<not> hasComponent ti e (destroyEntity e s)"
    using abs by (simp add: hasComponent_def has_def storage_all_def all_def split: option.splits)
  have g: "getComponent ti e (destroyEntity e s) = None"
    using abs by (simp add: getComponent_def get_def storage_all_def all_def split: option.splits)
  have ev: "\<forall>kv \<in> set (components (destroyEntity e s)). e \<notin> fst ` set (data (snd kv))"
    by (auto simp: destroyEntity_def remove_def delete_notin_dom)
  have ks: "map fst (components (destroyEntity e s)) = map fst (components s)"
    by (simp add: destroyEntity_def comp_def)
  have f: "keys_distinct s \<longrightarrow>
      forEach ti observe (destroyEntity e s, [])
        = Some (Inr (destroyEntity e s, AList.delete e (storage_all ti s))) \<and>
      e \<notin> fst ` set (AList.delete e (storage_all ti s))"
    using forEach_observe [OF keys_distinct_destroyEntity, of s ti e "[]"] a
    by (simp add: delete_notin_dom)
  show ?thesis
    by (intro conjI) (rule h g ev ks a f)+
qed

theorem destroyEntity_cascades_witness:
  "keys_distinct (addComponent 1 (health 9) (addComponent 0 (health 5)
      (addComponent 1 (rvalue_name ''b'') init))) \<and>
   hasComponent THealth 0 (addComponent 1 (health 9) (addComponent 0 (health 5)
      (addComponent 1 (rvalue_name ''b'') init))) \<and>
   \<not> hasComponent THealth 0 (destroyEntity 0 (addComponent 1 (health 9)
      (addComponent 0 (health 5) (addComponent 1 (rvalue_name ''b'') init)))) \<and>
   forEach THealth observe (destroyEntity 0 (addComponent 1 (health 9)
      (addComponent 0 (health 5) (addComponent 1 (rvalue_name ''b'') init))), [])
     = Some (Inr (destroyEntity 0 (addComponent 1 (health 9)
          (addComponent 0 (health 5) (addComponent 1 (rvalue_name ''b'') init))),
        [(1, CHealth \<lparr>hp = 9\<rparr>)]))"
proof -
  let ?s = "addComponent 1 (health 9) (addComponent 0 (health 5)
      (addComponent 1 (rvalue_name ''b'') init))"
  have k: "keys_distinct ?s"
    by (simp add: keys_distinct_addComponent keys_distinct_init)
  have a: "storage_all THealth ?s = [(0, CHealth \<lparr>hp = 5\<rparr>), (1, CHealth \<lparr>hp = 9\<rparr>)]"
    by (simp add: init_def addComponent_def storage_all_def all_def emplace_eq emplaced_def type_arg_def new_storage_def)
  have h: "hasComponent THealth 0 ?s"
    by (simp add: init_def addComponent_def hasComponent_def has_def emplace_eq emplaced_def type_arg_def new_storage_def)
  show ?thesis
    using destroyEntity_cascades [of THealth 0 ?s] k a h
    by simp
qed

lemma removeComponent_absent:
  assumes "e \<notin> fst ` set (storage_all ti s)"
  shows "removeComponent ti e s = s"
proof (cases "map_of (components s) ti")
  case None
  then show ?thesis by (simp add: removeComponent_def)
next
  case (Some ptr)
  then have "e \<notin> fst ` set (data ptr)"
    using assms by (simp add: storage_all_def all_def)
  then have "remove e ptr = ptr"
    by (simp add: remove_def)
  then show ?thesis
    using Some by (simp add: removeComponent_def update_triv)
qed

lemma destroyEntity_components_absent:
  assumes "\<forall>kv \<in> set (components s). e \<notin> fst ` set (data (snd kv))"
  shows "components (destroyEntity e s) = components s"
proof -
  have "map (\<lambda>kv. (fst kv, remove e (snd kv))) (components s) = map (\<lambda>kv. kv) (components s)"
    using assms by (intro map_cong) (auto simp: remove_def)
  then show ?thesis
    by (simp add: destroyEntity_def)
qed

lemma forEach_empty:
  assumes "storage_all ti s = []"
  shows "forEach ti func (s, u) = Some (Inr (s, u))"
proof (cases "map_of (components s) ti")
  case None
  then show ?thesis by (simp add: forEach_def)
next
  case (Some ptr)
  then have "all ptr = []"
    using assms by (simp add: storage_all_def)
  then show ?thesis
    using Some by (subst forEach_def, simp, subst forEach_loop.simps, simp add: begin_it_def)
qed

lemma storage_all_removeComponent:
  "storage_all tj (removeComponent ti e s) =
     (if tj = ti then AList.delete e (storage_all ti s) else storage_all tj s)"
  by (simp add: storage_all_def all_def lookup_removeComponent remove_def split: option.split)

lemma storage_all_store_for: "data (store_for ti s) = storage_all ti s"
  by (simp add: store_for_def storage_all_def all_def new_storage_def split: option.split)

lemma storage_all_addComponent_same:
  "storage_all (type_arg a) (addComponent e a s) =
     AList.update e (emplaced e a (store_for (type_arg a) s)) (storage_all (type_arg a) s)"
proof -
  have "storage_all (type_arg a) (addComponent e a s) = data (emplace e a (store_for (type_arg a) s))"
    by (simp add: storage_all_def all_def lookup_addComponent store_for_def)
  then show ?thesis
    by (simp add: emplace_eq storage_all_store_for)
qed

lemma storage_all_addComponent_keys:
  "fst ` set (storage_all tj (addComponent e a s)) \<subseteq> insert e (fst ` set (storage_all tj s))"
proof (cases "tj = type_arg a")
  case True
  then show ?thesis
    by (simp add: storage_all_addComponent_same dom_update)
next
  case False
  then show ?thesis
    by (simp add: storage_all_def lookup_addComponent subset_insertI)
qed

lemma never_added_absent:
  "e \<notin> set (added_ids cs) \<Longrightarrow> e \<notin> fst ` set (storage_all ti s) \<Longrightarrow>
     e \<notin> fst ` set (storage_all ti (run cs s))"
proof (induction cs s rule: run.induct)
  case (1 s)
  then show ?case by simp
next
  case (2 cs s)
  then show ?case by (simp add: storage_all_def lookup_createEntity)
next
  case (3 i cs s)
  have "fst ` set (AList.delete i (storage_all ti s)) \<subseteq> fst ` set (storage_all ti s)"
    using set_delete_subset [of i "storage_all ti s"] by blast
  then show ?case using 3 by (auto simp: storage_all_destroyEntity)
next
  case (4 e' a cs s)
  have "e \<noteq> e'" using "4.prems"(1) by simp
  then have "e \<notin> fst ` set (storage_all ti (addComponent e' a s))"
    using storage_all_addComponent_keys [of ti e' a s] "4.prems"(2) by blast
  then show ?case using 4 by simp
next
  case (5 tj e' cs s)
  have "fst ` set (AList.delete e' (storage_all ti s)) \<subseteq> fst ` set (storage_all ti s)"
    using set_delete_subset [of e' "storage_all ti s"] by blast
  then have "e \<notin> fst ` set (storage_all ti (removeComponent tj e' s))"
    using "5.prems"(2) by (auto simp: storage_all_removeComponent)
  then show ?case using 5 by simp
qed

text \<open>
  C6, as the specification states it, fails: \<^verbatim>\<open>addComponent\<close> does not check that its
  entity is live, so an identifier that is not live can hold a component; then
  \<^verbatim>\<open>hasComponent\<close> is true, \<^verbatim>\<open>getComponent\<close> finds the value and \<^verbatim>\<open>removeComponent\<close>
  changes the manager.
\<close>

theorem nonlive_id_keeps_component:
  "7 \<notin> set (entities (addComponent 7 (health 5) init)) \<and>
   hasComponent THealth 7 (addComponent 7 (health 5) init) \<and>
   getComponent THealth 7 (addComponent 7 (health 5) init) = Some (CHealth \<lparr>hp = 5\<rparr>) \<and>
   removeComponent THealth 7 (addComponent 7 (health 5) init)
     \<noteq> addComponent 7 (health 5) init"
  by (simp add: init_def addComponent_def removeComponent_def hasComponent_def getComponent_def
      has_def get_def emplace_eq emplaced_def type_arg_def remove_def new_storage_def)

lemma nowhere_absent:
  assumes "\<forall>kv \<in> set (components s). e \<notin> fst ` set (data (snd kv))"
  shows "e \<notin> fst ` set (storage_all ti s)"
proof (cases "map_of (components s) ti")
  case None
  then show ?thesis by (simp add: storage_all_def)
next
  case (Some ptr)
  then have "(ti, ptr) \<in> set (components s)"
    by (rule map_of_SomeD)
  then have "e \<notin> fst ` set (data ptr)"
    using assms by fastforce
  then show ?thesis
    using Some by (simp add: storage_all_def all_def)
qed

lemma nowhere_destroyEntity:
  "\<forall>kv \<in> set (components (destroyEntity e s)). e \<notin> fst ` set (data (snd kv))"
  by (auto simp: destroyEntity_def remove_def delete_notin_dom)

lemma nowhere_update:
  assumes "\<forall>kv \<in> set al. e \<notin> fst ` set (data (snd kv))" and "e \<notin> fst ` set (data st)"
  shows "\<forall>kv \<in> set (AList.update ti st al). e \<notin> fst ` set (data (snd kv))"
proof
  fix kv assume "kv \<in> set (AList.update ti st al)"
  then have "kv = (ti, st) \<or> kv \<in> set al"
    using set_update_subset [of ti st al] by blast
  then show "e \<notin> fst ` set (data (snd kv))"
    using assms by auto
qed

lemma nowhere_store_for:
  assumes "\<forall>kv \<in> set (components s). e \<notin> fst ` set (data (snd kv))"
  shows "e \<notin> fst ` set (data (store_for ti s))"
  using nowhere_absent [OF assms, of ti] by (simp add: storage_all_store_for)

lemma nowhere_run:
  "e \<notin> set (added_ids cs) \<Longrightarrow> \<forall>kv \<in> set (components s). e \<notin> fst ` set (data (snd kv)) \<Longrightarrow>
     \<forall>kv \<in> set (components (run cs s)). e \<notin> fst ` set (data (snd kv))"
proof (induction cs s rule: run.induct)
  case (1 s)
  then show ?case by simp
next
  case (2 cs s)
  show ?case
    using "2.IH" "2.prems" by (simp add: lookup_createEntity)
next
  case (3 i cs s)
  have "\<forall>kv \<in> set (components (destroyEntity i s)). e \<notin> fst ` set (data (snd kv))"
  proof
    fix kv assume "kv \<in> set (components (destroyEntity i s))"
    then obtain kv0 where kv0: "kv0 \<in> set (components s)" "kv = (fst kv0, remove i (snd kv0))"
      by (auto simp: destroyEntity_def)
    have "fst ` set (data (remove i (snd kv0))) \<subseteq> fst ` set (data (snd kv0))"
      using set_delete_subset [of i "data (snd kv0)"] by (auto simp: remove_def)
    then show "e \<notin> fst ` set (data (snd kv))"
      using "3.prems"(2) kv0 by auto
  qed
  then show ?case
    using "3.IH" "3.prems"(1) by simp
next
  case (4 e' a cs s)
  have ne: "e \<noteq> e'"
    using "4.prems"(1) by simp
  have "e \<notin> fst ` set (data (store_for (type_arg a) s))"
    using "4.prems"(2) by (rule nowhere_store_for)
  then have "e \<notin> fst ` set (data (emplace e' a (store_for (type_arg a) s)))"
    using ne by (simp add: emplace_eq dom_update)
  then have "\<forall>kv \<in> set (components (addComponent e' a s)). e \<notin> fst ` set (data (snd kv))"
    using nowhere_update [OF "4.prems"(2)] by (simp add: addComponent_eq)
  then show ?case
    using "4.IH" "4.prems"(1) by simp
next
  case (5 tj e' cs s)
  have "\<forall>kv \<in> set (components (removeComponent tj e' s)). e \<notin> fst ` set (data (snd kv))"
  proof (cases "map_of (components s) tj")
    case None
    then show ?thesis using "5.prems"(2) by (simp add: removeComponent_def)
  next
    case (Some ptr)
    have "e \<notin> fst ` set (data ptr)"
      using nowhere_store_for [OF "5.prems"(2), of tj] Some by (simp add: store_for_def)
    moreover have "fst ` set (data (remove e' ptr)) \<subseteq> fst ` set (data ptr)"
      using set_delete_subset [of e' "data ptr"] by (auto simp: remove_def)
    ultimately have "e \<notin> fst ` set (data (remove e' ptr))"
      by blast
    then show ?thesis
      using nowhere_update [OF "5.prems"(2)] Some by (simp add: removeComponent_def)
  qed
  then show ?case
    using "5.IH" "5.prems"(1) by simp
qed

lemma nowhere_operations:
  assumes "\<forall>kv \<in> set (components s). e \<notin> fst ` set (data (snd kv))"
  shows "removeComponent ti e s = s \<and> \<not> hasComponent ti e s \<and> getComponent ti e s = None \<and>
         components (destroyEntity e s) = components s"
proof -
  have a: "e \<notin> fst ` set (storage_all ti s)"
    using assms by (rule nowhere_absent)
  then have n: "map_of (storage_all ti s) e = None"
    by (simp add: map_of_eq_None_iff)
  have "\<not> hasComponent ti e s"
    using n by (simp add: hasComponent_def has_def storage_all_def all_def split: option.splits)
  moreover have "getComponent ti e s = None"
    using n by (simp add: getComponent_def get_def storage_all_def all_def split: option.splits)
  ultimately show ?thesis
    using removeComponent_absent [OF a] destroyEntity_components_absent [OF assms] by simp
qed

text \<open>
  C6, amended: for an identifier that has not been passed to \<^verbatim>\<open>addComponent\<close> since the
  manager was created, or since the identifier was last passed to \<^verbatim>\<open>destroyEntity\<close>, be it
  live or not, \<^verbatim>\<open>removeComponent<T>\<close> returns the manager unchanged, \<^verbatim>\<open>hasComponent<T>\<close> is
  false, \<^verbatim>\<open>getComponent<T>\<close> is absent and \<^verbatim>\<open>destroyEntity\<close> leaves every storage as it is.
  \<^verbatim>\<open>removeComponent<T>\<close> is a no-op whenever the entity has no component of type \<open>T\<close>.
  \<^verbatim>\<open>destroyEntity\<close> of an identifier that is not live leaves the live vector as it is, and
  always appends the identifier to the free list. \<^verbatim>\<open>forEach<T>\<close> on a type with no storage
  or an empty one returns without calling the visitor. All of these are total functions.
\<close>

theorem absent_component_operations_total:
  "(e \<notin> set (added_ids cs) \<longrightarrow>
      removeComponent ti e (run cs init) = run cs init \<and>
      \<not> hasComponent ti e (run cs init) \<and>
      getComponent ti e (run cs init) = None \<and>
      components (destroyEntity e (run cs init)) = components (run cs init)) \<and>
   (e \<notin> set (added_ids cs) \<longrightarrow>
      removeComponent ti e (run cs (destroyEntity e s)) = run cs (destroyEntity e s) \<and>
      \<not> hasComponent ti e (run cs (destroyEntity e s)) \<and>
      getComponent ti e (run cs (destroyEntity e s)) = None \<and>
      components (destroyEntity e (run cs (destroyEntity e s)))
        = components (run cs (destroyEntity e s))) \<and>
   (\<not> hasComponent ti e s \<longrightarrow> removeComponent ti e s = s) \<and>
   (e \<notin> set (entities s) \<longrightarrow> entities (destroyEntity e s) = entities s) \<and>
   ((\<forall>kv \<in> set (components s). e \<notin> fst ` set (data (snd kv))) \<longrightarrow>
      components (destroyEntity e s) = components s) \<and>
   freeIds (destroyEntity e s) = freeIds s @ [e] \<and>
   nextId (destroyEntity e s) = nextId s \<and>
   (storage_all tj t = [] \<longrightarrow> forEach tj func (t, u) = Some (Inr (t, u)))"
proof -
  have c1: "e \<notin> set (added_ids cs) \<longrightarrow>
      removeComponent ti e (run cs init) = run cs init \<and>
      \<not> hasComponent ti e (run cs init) \<and>
      getComponent ti e (run cs init) = None \<and>
      components (destroyEntity e (run cs init)) = components (run cs init)"
  proof
    assume na: "e \<notin> set (added_ids cs)"
    have "\<forall>kv \<in> set (components init). e \<notin> fst ` set (data (snd kv))"
      by (simp add: init_def)
    with na have "\<forall>kv \<in> set (components (run cs init)). e \<notin> fst ` set (data (snd kv))"
      by (rule nowhere_run)
    then show "removeComponent ti e (run cs init) = run cs init \<and>
      \<not> hasComponent ti e (run cs init) \<and>
      getComponent ti e (run cs init) = None \<and>
      components (destroyEntity e (run cs init)) = components (run cs init)"
      by (rule nowhere_operations)
  qed
  have c2: "e \<notin> set (added_ids cs) \<longrightarrow>
      removeComponent ti e (run cs (destroyEntity e s)) = run cs (destroyEntity e s) \<and>
      \<not> hasComponent ti e (run cs (destroyEntity e s)) \<and>
      getComponent ti e (run cs (destroyEntity e s)) = None \<and>
      components (destroyEntity e (run cs (destroyEntity e s)))
        = components (run cs (destroyEntity e s))"
  proof
    assume na: "e \<notin> set (added_ids cs)"
    have "\<forall>kv \<in> set (components (run cs (destroyEntity e s))). e \<notin> fst ` set (data (snd kv))"
      using na nowhere_destroyEntity by (rule nowhere_run)
    then show "removeComponent ti e (run cs (destroyEntity e s)) = run cs (destroyEntity e s) \<and>
      \<not> hasComponent ti e (run cs (destroyEntity e s)) \<and>
      getComponent ti e (run cs (destroyEntity e s)) = None \<and>
      components (destroyEntity e (run cs (destroyEntity e s)))
        = components (run cs (destroyEntity e s))"
      by (rule nowhere_operations)
  qed
  have c3: "\<not> hasComponent ti e s \<longrightarrow> removeComponent ti e s = s"
  proof
    assume "\<not> hasComponent ti e s"
    then have "map_of (storage_all ti s) e = None"
      by (simp add: hasComponent_def has_def storage_all_def all_def split: option.splits)
    then have "e \<notin> fst ` set (storage_all ti s)"
      by (simp add: map_of_eq_None_iff)
    then show "removeComponent ti e s = s"
      by (rule removeComponent_absent)
  qed
  have c4: "e \<notin> set (entities s) \<longrightarrow> entities (destroyEntity e s) = entities s"
    by (simp add: destroyEntity_def)
  have c5: "(\<forall>kv \<in> set (components s). e \<notin> fst ` set (data (snd kv))) \<longrightarrow>
      components (destroyEntity e s) = components s"
    using destroyEntity_components_absent by blast
  have c6: "freeIds (destroyEntity e s) = freeIds s @ [e]"
    by (simp add: destroyEntity_def)
  have c7: "nextId (destroyEntity e s) = nextId s"
    by (simp add: destroyEntity_def)
  have c8: "storage_all tj t = [] \<longrightarrow> forEach tj func (t, u) = Some (Inr (t, u))"
    by (simp add: forEach_empty)
  show ?thesis
    by (intro conjI) (rule c1 c2 c3 c4 c5 c6 c7 c8)+
qed

theorem absent_component_operations_total_witness:
  "5 \<notin> set (added_ids [Create, Add 0 (health 3)]) \<and>
   5 \<notin> set (entities (run [Create, Add 0 (health 3)] init)) \<and>
   \<not> hasComponent THealth 5 (run [Create, Add 0 (health 3)] init) \<and>
   removeComponent THealth 5 (run [Create, Add 0 (health 3)] init)
     = run [Create, Add 0 (health 3)] init \<and>
   components (destroyEntity 5 (run [Create, Add 0 (health 3)] init))
     = components (run [Create, Add 0 (health 3)] init) \<and>
   hasComponent THealth 0 (run [Create, Add 0 (health 3)] init) \<and>
   0 \<notin> set (added_ids [Add 1 (health 4)]) \<and>
   0 \<notin> set (entities (run [Add 1 (health 4)] (destroyEntity 0 (run [Create, Add 0 (health 3)] init)))) \<and>
   \<not> hasComponent THealth 0
     (run [Add 1 (health 4)] (destroyEntity 0 (run [Create, Add 0 (health 3)] init))) \<and>
   getComponent THealth 0
     (run [Add 1 (health 4)] (destroyEntity 0 (run [Create, Add 0 (health 3)] init))) = None \<and>
   storage_all TName (run [Create, Add 0 (health 3)] init) = [] \<and>
   forEach TName health_visit (run [Create, Add 0 (health 3)] init, [])
     = Some (Inr (run [Create, Add 0 (health 3)] init, []))"
proof -
  let ?s = "run [Create, Add 0 (health 3)] init"
  have s: "?s = \<lparr>nextId = 1, entities = [0], freeIds = [],
      components = [(THealth, \<lparr>elem_type = THealth, data = [(0, CHealth \<lparr>hp = 3\<rparr>)]\<rparr>)]\<rparr>"
    by (simp add: init_def createEntity_def addComponent_def emplace_def type_arg_def
        new_storage_def)
  have h: "storage_all TName ?s = []" "5 \<notin> set (entities ?s)" "hasComponent THealth 0 ?s"
    unfolding s by (simp_all add: storage_all_def all_def hasComponent_def has_def)
  have e: "0 \<notin> set (entities (run [Add 1 (health 4)] (destroyEntity 0 ?s)))"
    unfolding s by (simp add: destroyEntity_def addComponent_frame)
  show ?thesis
    using absent_component_operations_total
      [of 5 "[Create, Add 0 (health 3)]" THealth ?s TName ?s health_visit "[]"]
      absent_component_operations_total
      [of 0 "[Add 1 (health 4)]" THealth ?s TName ?s health_visit "[]"] h e
    by simp
qed

section \<open>The registry\<close>

lemma registry_ok_update:
  assumes "registry_ok s" and "elem_type st = ti"
    and "\<forall>ec \<in> set (data st). typeid (snd ec) = ti"
  shows "registry_ok (s\<lparr>components := AList.update ti st (components s)\<rparr>)"
proof -
  have "distinct (map fst (AList.update ti st (components s)))"
    using assms(1) by (simp add: registry_ok_def distinct_update)
  moreover have "\<forall>kv \<in> set (AList.update ti st (components s)).
      elem_type (snd kv) = fst kv \<and> (\<forall>ec \<in> set (data (snd kv)). typeid (snd ec) = fst kv)"
  proof
    fix kv assume "kv \<in> set (AList.update ti st (components s))"
    then have "kv = (ti, st) \<or> kv \<in> set (components s)"
      using set_update_subset [of ti st "components s"] by blast
    then show "elem_type (snd kv) = fst kv \<and> (\<forall>ec \<in> set (data (snd kv)). typeid (snd ec) = fst kv)"
    proof
      assume "kv = (ti, st)"
      then show ?thesis using assms(2,3) by simp
    next
      assume "kv \<in> set (components s)"
      then show ?thesis using assms(1) by (simp add: registry_ok_def)
    qed
  qed
  ultimately show ?thesis
    by (simp add: registry_ok_def)
qed

lemma store_for_ok:
  assumes "registry_ok s"
  shows "elem_type (store_for ti s) = ti \<and> (\<forall>ec \<in> set (data (store_for ti s)). typeid (snd ec) = ti)"
proof (cases "map_of (components s) ti")
  case None
  then show ?thesis by (simp add: store_for_def new_storage_def)
next
  case (Some ptr)
  then have "(ti, ptr) \<in> set (components s)" by (rule map_of_SomeD)
  then show ?thesis using assms Some by (auto simp: registry_ok_def store_for_def)
qed

lemma registry_ok_addComponent:
  assumes "registry_ok s"
  shows "registry_ok (addComponent e a s)"
proof -
  let ?st = "emplace e a (store_for (type_arg a) s)"
  have h1: "elem_type ?st = type_arg a"
    using store_for_ok [OF assms, of "type_arg a"] by (simp add: emplace_eq)
  have h2: "\<forall>ec \<in> set (data ?st). typeid (snd ec) = type_arg a"
    using store_for_ok [OF assms, of "type_arg a"]
      set_update_subset [of e "emplaced e a (store_for (type_arg a) s)"
        "data (store_for (type_arg a) s)"]
    by (auto simp: emplace_eq typeid_emplaced)
  have "registry_ok (s\<lparr>components := AList.update (type_arg a) ?st (components s)\<rparr>)"
    using assms h1 h2 by (rule registry_ok_update)
  then show ?thesis
    by (simp add: addComponent_eq)
qed

lemma registry_ok_removeComponent:
  assumes "registry_ok s"
  shows "registry_ok (removeComponent ti e s)"
proof (cases "map_of (components s) ti")
  case None
  then show ?thesis using assms by (simp add: removeComponent_def)
next
  case (Some ptr)
  then have ok: "elem_type ptr = ti \<and> (\<forall>ec \<in> set (data ptr). typeid (snd ec) = ti)"
    using store_for_ok [OF assms, of ti] by (simp add: store_for_def)
  have h1: "elem_type (remove e ptr) = ti"
    using ok by (simp add: remove_def)
  have h2: "\<forall>ec \<in> set (data (remove e ptr)). typeid (snd ec) = ti"
    using ok set_delete_subset [of e "data ptr"] by (auto simp: remove_def)
  have "registry_ok (s\<lparr>components := AList.update ti (remove e ptr) (components s)\<rparr>)"
    using assms h1 h2 by (rule registry_ok_update)
  then show ?thesis
    using Some by (simp add: removeComponent_def)
qed

lemma registry_ok_destroyEntity:
  assumes "registry_ok s"
  shows "registry_ok (destroyEntity i s)"
proof -
  have d: "distinct (map fst (components (destroyEntity i s)))"
    using assms by (simp add: registry_ok_def destroyEntity_def comp_def)
  have "\<forall>kv \<in> set (components (destroyEntity i s)).
      elem_type (snd kv) = fst kv \<and> (\<forall>ec \<in> set (data (snd kv)). typeid (snd ec) = fst kv)"
  proof
    fix kv assume "kv \<in> set (components (destroyEntity i s))"
    then obtain kv0 where kv0: "kv0 \<in> set (components s)" "kv = (fst kv0, remove i (snd kv0))"
      by (auto simp: destroyEntity_def)
    have ok: "elem_type (snd kv0) = fst kv0"
      "\<forall>ec \<in> set (data (snd kv0)). typeid (snd ec) = fst kv0"
      using assms kv0(1) by (simp_all add: registry_ok_def)
    have "set (data (remove i (snd kv0))) \<subseteq> set (data (snd kv0))"
      using set_delete_subset [of i "data (snd kv0)"] by (simp add: remove_def)
    then have "\<forall>ec \<in> set (data (remove i (snd kv0))). typeid (snd ec) = fst kv0"
      using ok(2) by blast
    moreover have "elem_type (remove i (snd kv0)) = fst kv0"
      using ok(1) by (simp add: remove_def)
    ultimately show "elem_type (snd kv) = fst kv \<and>
        (\<forall>ec \<in> set (data (snd kv)). typeid (snd ec) = fst kv)"
      by (simp add: kv0(2))
  qed
  then show ?thesis
    using d by (simp add: registry_ok_def)
qed

lemma registry_ok_createEntity: "registry_ok s \<Longrightarrow> registry_ok (snd (createEntity s))"
  by (simp add: registry_ok_def lookup_createEntity)

lemma registry_ok_run: "registry_ok s \<Longrightarrow> registry_ok (run cs s)"
proof (induction cs s rule: run.induct)
  case (1 s)
  then show ?case by simp
next
  case (2 cs s)
  show ?case using "2.IH" registry_ok_createEntity [OF "2.prems"] by simp
next
  case (3 i cs s)
  show ?case using "3.IH" registry_ok_destroyEntity [OF "3.prems"] by simp
next
  case (4 e a cs s)
  show ?case using "4.IH" registry_ok_addComponent [OF "4.prems"] by simp
next
  case (5 ti e cs s)
  show ?case using "5.IH" registry_ok_removeComponent [OF "5.prems"] by simp
qed

lemma registry_ok_init: "registry_ok init"
  by (simp add: registry_ok_def init_def)

lemma registry_keys_addComponent:
  "map fst (components (addComponent e a s)) =
     (if type_arg a \<in> set (map fst (components s)) then map fst (components s)
      else map fst (components s) @ [type_arg a])"
  by (simp add: addComponent_eq update_keys)

lemma registry_keys_removeComponent:
  "map fst (components (removeComponent ti e s)) = map fst (components s)"
proof (cases "map_of (components s) ti")
  case None
  then show ?thesis by (simp add: removeComponent_def)
next
  case (Some ptr)
  then have "ti \<in> fst ` set (components s)"
    by (metis map_of_eq_None_iff option.distinct(1))
  then show ?thesis using Some by (simp add: removeComponent_def update_keys)
qed

lemma registry_keys_destroyEntity:
  "map fst (components (destroyEntity i s)) = map fst (components s)"
  by (simp add: destroyEntity_def comp_def)

lemma registry_keys_run:
  "set (map fst (components s)) \<subseteq> set (map fst (components (run cs s)))"
proof (induction cs s rule: run.induct)
  case (1 s)
  show ?case by simp
next
  case (2 cs s)
  then show ?case by (simp add: lookup_createEntity)
next
  case (3 i cs s)
  then show ?case by (simp add: registry_keys_destroyEntity)
next
  case (4 e a cs s)
  have "set (map fst (components s)) \<subseteq> set (map fst (components (addComponent e a s)))"
    by (auto simp: registry_keys_addComponent)
  also have "\<dots> \<subseteq> set (map fst (components (run cs (addComponent e a s))))"
    by (rule "4.IH")
  finally show ?case by simp
next
  case (5 ti e cs s)
  then show ?case by (simp add: registry_keys_removeComponent)
qed

lemma getComponent_addComponent_other:
  assumes "e' \<noteq> e"
  shows "getComponent ti e' (addComponent e a s) = getComponent ti e' s"
proof (cases "ti = type_arg a")
  case True
  have "map_of (storage_all (type_arg a) (addComponent e a s)) e'
      = map_of (storage_all (type_arg a) s) e'"
    using assms by (simp add: storage_all_addComponent_same update_conv')
  then show ?thesis
    using True
    by (simp add: getComponent_def get_def storage_all_def all_def lookup_addComponent
        split: option.splits)
next
  case False
  then show ?thesis
    by (simp add: getComponent_def lookup_addComponent)
qed

text \<open>
  C7: the registry holds one storage per type identity, and the storage found under the
  identity of \<open>T\<close> was constructed for \<open>T\<close> and holds values of \<open>T\<close> only; this holds for
  a new manager and is kept by every call. A new manager has no storage. The first
  \<^verbatim>\<open>addComponent<T>\<close> registers an empty storage and then inserts into it; a later one
  registers nothing and creates nothing: it emplaces into the storage that is registered,
  whose other entries stay, and leaves the storages of the other types as they are. No call
  removes a storage from the registry: \<^verbatim>\<open>removeComponent\<close> and \<^verbatim>\<open>destroyEntity\<close> keep every
  storage, less the entity's entry, also when it becomes empty, and \<^verbatim>\<open>createEntity\<close> leaves
  the registry as it is.
\<close>

theorem registry_one_storage_per_type:
  "registry_ok (run cs init) \<and>
   (registry_ok s \<longrightarrow> registry_ok (run cs s)) \<and>
   (registry_ok s \<longrightarrow> map_of (components s) ti = Some st \<longrightarrow>
      elem_type st = ti \<and> (\<forall>ec \<in> set (data st). typeid (snd ec) = ti)) \<and>
   set (map fst (components s)) \<subseteq> set (map fst (components (run cs s))) \<and>
   components init = [] \<and>
   (map_of (components s) (type_arg a) = None \<longrightarrow>
      map_of (components (addComponent e a s)) (type_arg a)
        = Some \<lparr>elem_type = type_arg a, data = [(e, fst (construct a))]\<rparr> \<and>
      addComponent e a (s\<lparr>components := components s @ [(type_arg a, new_storage (type_arg a))]\<rparr>)
        = addComponent e a s) \<and>
   (map_of (components s) (type_arg a) \<noteq> None \<longrightarrow>
      map fst (components (addComponent e a s)) = map fst (components s)) \<and>
   (map_of (components s) (type_arg a) = Some ptr \<longrightarrow>
      components (addComponent e a s)
        = AList.update (type_arg a) (emplace e a ptr) (components s) \<and>
      map_of (components (addComponent e a s)) (type_arg a) = Some (emplace e a ptr)) \<and>
   (e' \<noteq> e \<longrightarrow> getComponent tj e' (addComponent e a s) = getComponent tj e' s) \<and>
   (tj \<noteq> type_arg a \<longrightarrow>
      map_of (components (addComponent e a s)) tj = map_of (components s) tj) \<and>
   map fst (components (removeComponent ti e s)) = map fst (components s) \<and>
   map_of (components (removeComponent ti e s)) tj =
     (if tj = ti then map_option (remove e) (map_of (components s) ti)
      else map_of (components s) tj) \<and>
   map fst (components (destroyEntity e s)) = map fst (components s) \<and>
   map_of (components (destroyEntity e s)) tj = map_option (remove e) (map_of (components s) tj) \<and>
   components (snd (createEntity s)) = components s"
proof -
  have c1: "registry_ok (run cs init)"
    using registry_ok_init by (rule registry_ok_run)
  have c2: "registry_ok s \<longrightarrow> registry_ok (run cs s)"
    by (simp add: registry_ok_run)
  have c3: "registry_ok s \<longrightarrow> map_of (components s) ti = Some st \<longrightarrow>
      elem_type st = ti \<and> (\<forall>ec \<in> set (data st). typeid (snd ec) = ti)"
  proof (intro impI)
    assume ok: "registry_ok s" and l: "map_of (components s) ti = Some st"
    show "elem_type st = ti \<and> (\<forall>ec \<in> set (data st). typeid (snd ec) = ti)"
      using store_for_ok [OF ok, of ti] l by (simp add: store_for_def)
  qed
  have c4: "set (map fst (components s)) \<subseteq> set (map fst (components (run cs s)))"
    by (rule registry_keys_run)
  have c5: "components init = []"
    by (simp add: init_def)
  have c6: "map_of (components s) (type_arg a) = None \<longrightarrow>
      map_of (components (addComponent e a s)) (type_arg a)
        = Some \<lparr>elem_type = type_arg a, data = [(e, fst (construct a))]\<rparr> \<and>
      addComponent e a (s\<lparr>components := components s @ [(type_arg a, new_storage (type_arg a))]\<rparr>)
        = addComponent e a s"
  proof
    assume n: "map_of (components s) (type_arg a) = None"
    have "map_of (components (addComponent e a s)) (type_arg a)
        = Some \<lparr>elem_type = type_arg a, data = [(e, fst (construct a))]\<rparr>"
      using n by (simp add: lookup_addComponent emplace_eq emplaced_def new_storage_def)
    moreover have "addComponent e a (s\<lparr>components := components s @ [(type_arg a, new_storage (type_arg a))]\<rparr>)
        = addComponent e a s"
    proof -
      have notin: "type_arg a \<notin> fst ` set (components s)"
        using n by (simp add: map_of_eq_None_iff)
      show ?thesis
        using n notin
        by (simp add: addComponent_eq store_for_def update_registered map_add_def)
    qed
    ultimately show "map_of (components (addComponent e a s)) (type_arg a)
        = Some \<lparr>elem_type = type_arg a, data = [(e, fst (construct a))]\<rparr> \<and>
      addComponent e a (s\<lparr>components := components s @ [(type_arg a, new_storage (type_arg a))]\<rparr>)
        = addComponent e a s"
      by simp
  qed
  have c7: "map_of (components s) (type_arg a) \<noteq> None \<longrightarrow>
      map fst (components (addComponent e a s)) = map fst (components s)"
    by (simp add: registry_keys_addComponent map_of_eq_None_iff)
  have c7a: "map_of (components s) (type_arg a) = Some ptr \<longrightarrow>
      components (addComponent e a s)
        = AList.update (type_arg a) (emplace e a ptr) (components s) \<and>
      map_of (components (addComponent e a s)) (type_arg a) = Some (emplace e a ptr)"
    by (simp add: addComponent_def Let_def update_conv')
  have c7b: "e' \<noteq> e \<longrightarrow> getComponent tj e' (addComponent e a s) = getComponent tj e' s"
    by (simp add: getComponent_addComponent_other)
  have c7c: "tj \<noteq> type_arg a \<longrightarrow>
      map_of (components (addComponent e a s)) tj = map_of (components s) tj"
    by (simp add: lookup_addComponent)
  have c8: "map fst (components (removeComponent ti e s)) = map fst (components s)"
    by (rule registry_keys_removeComponent)
  have c8a: "map_of (components (removeComponent ti e s)) tj =
     (if tj = ti then map_option (remove e) (map_of (components s) ti)
      else map_of (components s) tj)"
    by (rule lookup_removeComponent)
  have c9: "map fst (components (destroyEntity e s)) = map fst (components s)"
    by (rule registry_keys_destroyEntity)
  have c9a: "map_of (components (destroyEntity e s)) tj
      = map_option (remove e) (map_of (components s) tj)"
    by (rule lookup_destroyEntity)
  have c10: "components (snd (createEntity s)) = components s"
    by (rule lookup_createEntity)
  show ?thesis
    by (intro conjI) (rule c1 c2 c3 c4 c5 c6 c7 c7a c7b c7c c8 c8a c9 c9a c10)+
qed

theorem registry_one_storage_per_type_witness:
  "registry_ok init \<and>
   map_of (components init) (type_arg (health 3)) = None \<and>
   map_of (components (addComponent 0 (health 3) init)) THealth
     = Some \<lparr>elem_type = THealth, data = [(0, CHealth \<lparr>hp = 3\<rparr>)]\<rparr> \<and>
   (1::32 word) \<noteq> 0 \<and>
   getComponent THealth 0 (addComponent 1 (health 4) (addComponent 0 (health 3) init))
     = Some (CHealth \<lparr>hp = 3\<rparr>) \<and>
   map_of (components (addComponent 1 (health 4) (addComponent 0 (health 3) init))) THealth
     = Some \<lparr>elem_type = THealth, data = [(0, CHealth \<lparr>hp = 3\<rparr>), (1, CHealth \<lparr>hp = 4\<rparr>)]\<rparr> \<and>
   registry_ok (run [Add 0 (health 3), Add 0 (rvalue_name ''n''), Destroy 0] init) \<and>
   components (run [Add 0 (health 3), Add 0 (rvalue_name ''n''), Destroy 0] init)
     = [(THealth, \<lparr>elem_type = THealth, data = []\<rparr>), (TName, \<lparr>elem_type = TName, data = []\<rparr>)]"
proof -
  let ?s1 = "addComponent 0 (health 3) init"
  have r: "components (run [Add 0 (health 3), Add 0 (rvalue_name ''n''), Destroy 0] init)
     = [(THealth, \<lparr>elem_type = THealth, data = []\<rparr>), (TName, \<lparr>elem_type = TName, data = []\<rparr>)]"
    by (simp add: init_def addComponent_def destroyEntity_def emplace_def type_arg_def
        remove_def new_storage_def)
  have n: "map_of (components init) (type_arg (health 3)) = None"
    by (simp add: init_def)
  have s1: "map_of (components ?s1) (type_arg (health 4))
      = Some \<lparr>elem_type = THealth, data = [(0, CHealth \<lparr>hp = 3\<rparr>)]\<rparr>"
    by (simp add: init_def addComponent_def emplace_def type_arg_def new_storage_def)
  have g: "getComponent THealth 0 ?s1 = Some (CHealth \<lparr>hp = 3\<rparr>)"
    by (simp add: init_def addComponent_def getComponent_def get_def emplace_def type_arg_def
        new_storage_def)
  have em: "emplace 1 (health 4) \<lparr>elem_type = THealth, data = [(0, CHealth \<lparr>hp = 3\<rparr>)]\<rparr>
      = \<lparr>elem_type = THealth, data = [(0, CHealth \<lparr>hp = 3\<rparr>), (1, CHealth \<lparr>hp = 4\<rparr>)]\<rparr>"
    by (simp add: emplace_def)
  have t1: "map_of (components (addComponent 1 (health 4) ?s1)) THealth
      = Some \<lparr>elem_type = THealth, data = [(0, CHealth \<lparr>hp = 3\<rparr>), (1, CHealth \<lparr>hp = 4\<rparr>)]\<rparr>"
    using registry_one_storage_per_type
      [where s = ?s1 and a = "health 4" and e = 1 and e' = 0 and tj = THealth and ti = THealth
         and cs = "[]" and st = "\<lparr>elem_type = THealth, data = []\<rparr>"
         and ptr = "\<lparr>elem_type = THealth, data = [(0, CHealth \<lparr>hp = 3\<rparr>)]\<rparr>"] s1 em
    by (simp add: type_arg_def update_conv')
  have t2: "getComponent THealth 0 (addComponent 1 (health 4) ?s1) = Some (CHealth \<lparr>hp = 3\<rparr>)"
    using registry_one_storage_per_type
      [where s = ?s1 and a = "health 4" and e = 1 and e' = 0 and tj = THealth and ti = THealth
         and cs = "[]" and st = "\<lparr>elem_type = THealth, data = []\<rparr>"
         and ptr = "\<lparr>elem_type = THealth, data = []\<rparr>"] g
    by simp
  have t3: "registry_ok (run [Add 0 (health 3), Add 0 (rvalue_name ''n''), Destroy 0] init) \<and>
      map_of (components (addComponent 0 (health 3) init)) THealth
        = Some \<lparr>elem_type = THealth, data = [(0, CHealth \<lparr>hp = 3\<rparr>)]\<rparr>"
    using registry_one_storage_per_type
      [where cs = "[Add 0 (health 3), Add 0 (rvalue_name ''n''), Destroy 0]" and s = init
         and a = "health 3" and e = 0 and e' = 0 and tj = THealth and ti = THealth
         and st = "\<lparr>elem_type = THealth, data = []\<rparr>"
         and ptr = "\<lparr>elem_type = THealth, data = []\<rparr>"] n
    by (simp add: type_arg_def)
  show ?thesis
    using t1 t2 t3 r n registry_ok_init by simp
qed

section \<open>Erasing during the traversal\<close>

lemma sint_pred:
  assumes "1 < sint (w :: 32 word)"
  shows "sint (w - 1) = sint w - 1"
proof -
  have hi: "sint w < 2 ^ 31"
    using sint_lt [of w] by simp
  have "sint (w - 1) = signed_take_bit 31 (sint w - 1)"
    by (simp add: sint_word_ariths)
  also have "\<dots> = sint w - 1"
    by (rule signed_take_bit_int_eq_self) (use hi assms in simp_all)
  finally show ?thesis .
qed

lemma max0_pred:
  assumes "1 <s (w :: 32 word)"
  shows "max0 (w - 1) = w - 1" and "w - 1 \<noteq> 0"
proof -
  have w: "1 < sint w"
    using assms by (simp add: word_sless_alt)
  then have p: "0 < sint (w - 1)"
    by (simp add: sint_pred)
  then show "max0 (w - 1) = w - 1"
    by (simp add: max0_def word_sless_alt)
  show "w - 1 \<noteq> 0"
    using p by auto
qed

lemma storage_all_assign:
  "storage_all tj (assign ti e c m) =
     (if tj = ti then AList.map_entry e (\<lambda>_. c) (storage_all ti m) else storage_all tj m)"
  by (simp add: storage_all_def all_def assign_def update_conv' split: option.split)

lemma assign_frame:
  "entities (assign ti e c m) = entities m"
  "freeIds (assign ti e c m) = freeIds m"
  "nextId (assign ti e c m) = nextId m"
  by (simp_all add: assign_def split: option.split)

lemma map_entry_split:
  "fst kv \<notin> fst ` set pre \<Longrightarrow>
     AList.map_entry (fst kv) f (pre @ kv # rest) = pre @ (fst kv, f (snd kv)) # rest"
  by (cases kv, induction pre) auto

lemma health_visit_alive:
  assumes "1 <s hp h"
  shows "health_visit e (CHealth h) (m, out) = (assign THealth e (CHealth (h\<lparr>hp := hp h - 1\<rparr>)) m, out)"
  using max0_pred [OF assms] by (simp add: health_visit_def Let_def)

lemma health_loop_alive:
  assumes "storage_all THealth m = pre @ rest"
    and "distinct (map fst (pre @ rest))"
    and "\<forall>kv \<in> set rest. case snd kv of CHealth h \<Rightarrow> 1 <s hp h | _ \<Rightarrow> False"
  shows "\<exists>m'. forEach_loop THealth health_visit (begin_it rest) (m, out) = Some (Inr (m', out)) \<and>
           storage_all THealth m' =
             pre @ map (\<lambda>kv. (fst kv, case snd kv of CHealth h \<Rightarrow> CHealth (h\<lparr>hp := hp h - 1\<rparr>) | c \<Rightarrow> c)) rest \<and>
           entities m' = entities m \<and> freeIds m' = freeIds m \<and> nextId m' = nextId m \<and>
           (\<forall>tj. tj \<noteq> THealth \<longrightarrow> storage_all tj m' = storage_all tj m)"
  using assms
proof (induction rest arbitrary: pre m)
  case Nil
  show ?case
    using Nil.prems(1) by (subst forEach_loop.simps) (simp add: begin_it_def)
next
  case (Cons kv rest)
  obtain h where h: "snd kv = CHealth h" "1 <s hp h"
    using Cons.prems(3) by (auto split: component.splits)
  let ?c = "CHealth (h\<lparr>hp := hp h - 1\<rparr>)"
  let ?m1 = "assign THealth (fst kv) ?c m"
  have notin: "fst kv \<notin> fst ` set pre"
    using Cons.prems(2) by auto
  have look: "map_of (storage_all THealth m) (fst kv) = Some (CHealth h)"
    using map_of_split [OF notin] Cons.prems(1) h(1) by simp
  have visit: "health_visit (fst kv) (CHealth h) (m, out) = (?m1, out)"
    using h(2) by (rule health_visit_alive)
  have all1: "storage_all THealth ?m1 = (pre @ [(fst kv, ?c)]) @ rest"
    using map_entry_split [OF notin, of "\<lambda>_. ?c" rest] Cons.prems(1)
    by (simp add: storage_all_assign)
  have still: "map_of (storage_all THealth ?m1) (fst kv) \<noteq> None"
    using map_of_split [OF notin, of rest] notin
    by (simp add: all1 map_of_eq_None_iff image_Un)
  have adv: "advance (fst kv) (storage_all THealth ?m1) = begin_it rest"
    using advance_split [of "(fst kv, ?c)" pre rest] notin by (simp add: all1)
  have d1: "distinct (map fst ((pre @ [(fst kv, ?c)]) @ rest))"
    using Cons.prems(2) by simp
  have r1: "\<forall>kv \<in> set rest. case snd kv of CHealth h \<Rightarrow> 1 <s hp h | _ \<Rightarrow> False"
    using Cons.prems(3) by simp
  obtain m' where m': "forEach_loop THealth health_visit (begin_it rest) (?m1, out) = Some (Inr (m', out))"
    "storage_all THealth m' = (pre @ [(fst kv, ?c)]) @
       map (\<lambda>kv. (fst kv, case snd kv of CHealth h \<Rightarrow> CHealth (h\<lparr>hp := hp h - 1\<rparr>) | c \<Rightarrow> c)) rest"
    "entities m' = entities ?m1" "freeIds m' = freeIds ?m1" "nextId m' = nextId ?m1"
    "\<forall>tj. tj \<noteq> THealth \<longrightarrow> storage_all tj m' = storage_all tj ?m1"
    using Cons.IH [OF all1 d1 r1] by blast
  have b: "begin_it (kv # rest) = Some (fst kv)"
    by (simp add: begin_it_def)
  have run: "forEach_loop THealth health_visit (begin_it (kv # rest)) (m, out) = Some (Inr (m', out))"
    by (subst forEach_loop.simps) (simp add: b look visit still adv m'(1))
  have "storage_all THealth m' =
      pre @ map (\<lambda>kv. (fst kv, case snd kv of CHealth h \<Rightarrow> CHealth (h\<lparr>hp := hp h - 1\<rparr>) | c \<Rightarrow> c)) (kv # rest)"
    using m'(2) h(1) by simp
  moreover have "\<forall>tj. tj \<noteq> THealth \<longrightarrow> storage_all tj m' = storage_all tj m"
    using m'(6) by (simp add: storage_all_assign)
  ultimately show ?case
    using run m'(3,4,5) by (auto simp: assign_frame)
qed

text \<open>
  While every \<open>hp\<close> is above 1 no entity is destroyed, and the update returns with every
  \<open>hp\<close> one lower and the live vector and free list as they were.
\<close>

lemma HealthSystem_update_alive:
  assumes "keys_distinct s"
    and "\<forall>kv \<in> set (storage_all THealth s). case snd kv of CHealth h \<Rightarrow> 1 <s hp h | _ \<Rightarrow> False"
  shows "\<exists>s'. HealthSystem_update (s, out) = Some (Inr (s', out)) \<and>
           storage_all THealth s' =
             map (\<lambda>kv. (fst kv, case snd kv of CHealth h \<Rightarrow> CHealth (h\<lparr>hp := hp h - 1\<rparr>) | c \<Rightarrow> c))
               (storage_all THealth s) \<and>
           entities s' = entities s \<and> freeIds s' = freeIds s"
proof (cases "map_of (components s) THealth")
  case None
  then show ?thesis
    by (simp add: HealthSystem_update_def forEach_def storage_all_def)
next
  case (Some ptr)
  then have "(THealth, ptr) \<in> set (components s)"
    by (rule map_of_SomeD)
  then have d: "distinct (map fst ([] @ storage_all THealth s))"
    using assms(1) Some by (auto simp: keys_distinct_def storage_all_def all_def)
  have a: "storage_all THealth s = [] @ storage_all THealth s"
    by simp
  have f: "HealthSystem_update (s, out)
      = forEach_loop THealth health_visit (begin_it (storage_all THealth s)) (s, out)"
    using Some by (simp add: HealthSystem_update_def forEach_def storage_all_def)
  show ?thesis
    using health_loop_alive [OF a d assms(2), of out] by (auto simp: f)
qed

lemma forEach_loop_destroy_current:
  assumes "map_of (storage_all ti (fst s)) e = Some c"
    and "fst (func e c s) = destroyEntity e m"
  shows "forEach_loop ti func (Some e) s = Some (Inl InvalidatedIterator)"
proof -
  have "map_of (storage_all ti (fst (func e c s))) e = None"
    by (simp add: assms(2) storage_all_destroyEntity delete_conv')
  with assms(1) show ?thesis
    by (rule forEach_loop_erase_current)
qed

text \<open>
  C2 fails on the code. \<^verbatim>\<open>forEach\<close> is a range-based \<^verbatim>\<open>for\<close> over the map of the storage,
  and the visitor of \<^verbatim>\<open>HealthSystem::update\<close> calls \<^verbatim>\<open>destroyEntity(e)\<close>, which erases the
  node the loop's iterator points to; the loop then increments that iterator. With the
  entities 0 and 1 holding \<open>hp = 1\<close> and \<open>hp = 5\<close>, in either order of the two nodes, the
  update ends in the invalidated iterator instead of completing the traversal.
\<close>

theorem health_update_destroy_invalidates_iterator:
  "HealthSystem_update
     (run [Create, Create, Add 0 (health 1), Add 1 (health 5)] init, [])
     = Some (Inl InvalidatedIterator) \<and>
   HealthSystem_update
     (run [Create, Create, Add 1 (health 5), Add 0 (health 1)] init, [])
     = Some (Inl InvalidatedIterator)"
proof -
  let ?s = "\<lparr>nextId = 2, entities = [0, 1], freeIds = [],
        components = [(THealth, \<lparr>elem_type = THealth,
          data = [(0, CHealth \<lparr>hp = 1\<rparr>), (1, CHealth \<lparr>hp = 5\<rparr>)]\<rparr>)]\<rparr>"
  let ?t = "\<lparr>nextId = 2, entities = [0, 1], freeIds = [],
        components = [(THealth, \<lparr>elem_type = THealth,
          data = [(1, CHealth \<lparr>hp = 5\<rparr>), (0, CHealth \<lparr>hp = 1\<rparr>)]\<rparr>)]\<rparr>"
  let ?t1 = "\<lparr>nextId = 2, entities = [0, 1], freeIds = [],
        components = [(THealth, \<lparr>elem_type = THealth,
          data = [(1, CHealth \<lparr>hp = 4\<rparr>), (0, CHealth \<lparr>hp = 1\<rparr>)]\<rparr>)]\<rparr>"
  have s: "run [Create, Create, Add 0 (health 1), Add 1 (health 5)] init = ?s"
    by (simp add: init_def createEntity_def addComponent_def emplace_eq emplaced_def type_arg_def new_storage_def)
  have t: "run [Create, Create, Add 1 (health 5), Add 0 (health 1)] init = ?t"
    by (simp add: init_def createEntity_def addComponent_def emplace_eq emplaced_def type_arg_def new_storage_def)
  have a: "map_of (storage_all THealth (fst (?s, []::cout_line list))) 0 = Some (CHealth \<lparr>hp = 1\<rparr>)"
    by (simp add: storage_all_def all_def)
  have b: "fst (health_visit 0 (CHealth \<lparr>hp = 1\<rparr>) (?s, []))
      = destroyEntity 0 (assign THealth 0 (CHealth \<lparr>hp = 0\<rparr>) ?s)"
    by (simp add: health_visit_def max0_def Let_def)
  have "forEach_loop THealth health_visit (Some 0) (?s, []) = Some (Inl InvalidatedIterator)"
    using a b by (rule forEach_loop_destroy_current)
  then have r1: "HealthSystem_update (?s, []) = Some (Inl InvalidatedIterator)"
    by (simp add: HealthSystem_update_def forEach_def all_def begin_it_def)
  have v1: "health_visit 1 (CHealth \<lparr>hp = 5\<rparr>) (?t, []) = (?t1, [])"
    by (simp add: health_visit_def assign_def max0_def Let_def word_sless_alt)
  have a': "map_of (storage_all THealth (fst (?t1, []::cout_line list))) 0 = Some (CHealth \<lparr>hp = 1\<rparr>)"
    by (simp add: storage_all_def all_def)
  have b': "fst (health_visit 0 (CHealth \<lparr>hp = 1\<rparr>) (?t1, []))
      = destroyEntity 0 (assign THealth 0 (CHealth \<lparr>hp = 0\<rparr>) ?t1)"
    by (simp add: health_visit_def max0_def Let_def)
  have l2: "forEach_loop THealth health_visit (Some 0) (?t1, []) = Some (Inl InvalidatedIterator)"
    using a' b' by (rule forEach_loop_destroy_current)
  have "forEach_loop THealth health_visit (Some 1) (?t, []) = Some (Inl InvalidatedIterator)"
    by (subst forEach_loop.simps) (simp add: v1 l2 storage_all_def all_def begin_it_def)
  then have r2: "HealthSystem_update (?t, []) = Some (Inl InvalidatedIterator)"
    by (simp add: HealthSystem_update_def forEach_def all_def begin_it_def)
  show ?thesis
    using r1 r2 s t by simp
qed

text \<open>
  C8 fails on the code, by the defect of C2. For an entity created with health 1 the visitor
  sets \<open>hp\<close> to 0 and destroys the entity within the same call, as the claim says; the loop
  of \<^verbatim>\<open>forEach\<close> then increments the iterator of the erased node, so the update does not
  return normally.
\<close>

theorem health_update_single_entity_invalidates_iterator:
  "health_visit 0 (CHealth \<lparr>hp = 1\<rparr>) (run [Create, Add 0 (health 1)] init, [])
     = (\<lparr>nextId = 1, entities = [], freeIds = [0],
         components = [(THealth, \<lparr>elem_type = THealth, data = []\<rparr>)]\<rparr>, [Destroying 0]) \<and>
   HealthSystem_update (run [Create, Add 0 (health 1)] init, [])
     = Some (Inl InvalidatedIterator)"
proof -
  let ?s = "\<lparr>nextId = 1, entities = [0], freeIds = [],
        components = [(THealth, \<lparr>elem_type = THealth, data = [(0, CHealth \<lparr>hp = 1\<rparr>)]\<rparr>)]\<rparr>"
  have s: "run [Create, Add 0 (health 1)] init = ?s"
    by (simp add: init_def createEntity_def addComponent_def emplace_eq emplaced_def type_arg_def new_storage_def)
  have v: "health_visit 0 (CHealth \<lparr>hp = 1\<rparr>) (?s, [])
     = (\<lparr>nextId = 1, entities = [], freeIds = [0],
         components = [(THealth, \<lparr>elem_type = THealth, data = []\<rparr>)]\<rparr>, [Destroying 0])"
    by (simp add: health_visit_def assign_def max0_def destroyEntity_def remove_def Let_def)
  have a: "map_of (storage_all THealth (fst (?s, []::cout_line list))) 0 = Some (CHealth \<lparr>hp = 1\<rparr>)"
    by (simp add: storage_all_def all_def)
  have b: "map_of (storage_all THealth (fst (health_visit 0 (CHealth \<lparr>hp = 1\<rparr>) (?s, [])))) 0 = None"
    by (simp add: v storage_all_def all_def)
  have "forEach_loop THealth health_visit (Some 0) (?s, []) = Some (Inl InvalidatedIterator)"
    using a b by (rule forEach_loop_erase_current)
  then have "HealthSystem_update (?s, []) = Some (Inl InvalidatedIterator)"
    by (simp add: HealthSystem_update_def forEach_def all_def begin_it_def)
  then show ?thesis
    using s v by simp
qed

end
